theory Spec2Isabelle
  imports Main
begin

section \<open>Host values: characters, numbers, native values\<close>

text \<open>
  The serializer is JavaScript; what it computes is decided by a handful of host
  operations (\<^verbatim>\<open>parseInt\<close>, \<^verbatim>\<open>parseFloat\<close>, \<^verbatim>\<open>toString\<close>, property reads and writes,
  the DOM).  They are modelled here as far as the serializer uses them.

  Strings are lists of 8-bit characters.  A number is \<^verbatim>\<open>NaN\<close>, an infinity, or a
  finite decimal \<open>m * 10 ^ e\<close> kept in normal form (\<open>m\<close> not divisible by ten, zero
  as \<open>Dec 0 0\<close>): the precision of a double is not modelled, and neither is the
  sign of zero.
\<close>

datatype jserr = TypeError | InvalidCharacterError

datatype jsnum = NaN | PosInfinity | NegInfinity | Dec int int

definition isDigit :: "char \<Rightarrow> bool" where
  "isDigit c \<longleftrightarrow> 48 \<le> (of_char c :: nat) \<and> (of_char c :: nat) \<le> 57"

definition digitVal :: "char \<Rightarrow> nat" where
  "digitVal c = of_char c - 48"

definition digitChar :: "nat \<Rightarrow> char" where
  "digitChar d = char_of (48 + d)"

text \<open>The characters that \<^verbatim>\<open>parseInt\<close> and \<^verbatim>\<open>parseFloat\<close> skip at the start of a string
  (tab, line feed, vertical tab, form feed, carriage return, space, no-break space).\<close>

definition isWhite :: "char \<Rightarrow> bool" where
  "isWhite c \<longleftrightarrow> (of_char c :: nat) \<in> {9, 10, 11, 12, 13, 32, 160}"

definition isHexDigit :: "char \<Rightarrow> bool" where
  "isHexDigit c \<longleftrightarrow> isDigit c
     \<or> (65 \<le> (of_char c :: nat) \<and> (of_char c :: nat) \<le> 70)
     \<or> (97 \<le> (of_char c :: nat) \<and> (of_char c :: nat) \<le> 102)"

definition hexVal :: "char \<Rightarrow> nat" where
  "hexVal c = (if isDigit c then digitVal c
               else if (of_char c :: nat) \<le> 70 then of_char c - 55
               else of_char c - 87)"

function natToDigits :: "nat \<Rightarrow> string" where
  "natToDigits n =
     (if n < 10 then [digitChar n] else natToDigits (n div 10) @ [digitChar (n mod 10)])"
  by pat_completeness auto
termination
  by (relation "measure id") auto

declare natToDigits.simps [simp del]

definition digitsToNat :: "string \<Rightarrow> nat" where
  "digitsToNat ds = foldl (\<lambda>a c. 10 * a + digitVal c) 0 ds"

definition hexToNat :: "string \<Rightarrow> nat" where
  "hexToNat ds = foldl (\<lambda>a c. 16 * a + hexVal c) 0 ds"

text \<open>Normal form of \<open>m * 10 ^ e\<close>: trailing zeros of the mantissa go to the exponent.\<close>

function stripZeros :: "nat \<Rightarrow> int \<Rightarrow> nat \<times> int" where
  "stripZeros m e =
     (if m \<noteq> 0 \<and> m mod 10 = 0 then stripZeros (m div 10) (e + 1) else (m, e))"
  by pat_completeness auto
termination
  by (relation "measure fst") auto

declare stripZeros.simps [simp del]

definition mkNum :: "bool \<Rightarrow> nat \<Rightarrow> int \<Rightarrow> jsnum" where
  "mkNum neg m e =
     (if m = 0 then Dec 0 0
      else case stripZeros m e of
             (m', e') \<Rightarrow> Dec (if neg then - int m' else int m') e')"

fun wfNum :: "jsnum \<Rightarrow> bool" where
  "wfNum (Dec m e) = (if m = 0 then e = 0 else m mod 10 \<noteq> 0)"
| "wfNum _ = True"

text \<open>
  \<^verbatim>\<open>Number.prototype.toString\<close> (radix ten).  With \<open>k\<close> the number of digits of the
  mantissa and \<open>n = e + k\<close> the position of the decimal point: plain digits while
  \<open>n \<le> 21\<close>, a leading \<^verbatim>\<open>0.\<close> down to \<open>n = -5\<close>, exponent notation outside.
\<close>

definition posToString :: "nat \<Rightarrow> int \<Rightarrow> string" where
  "posToString s e =
     (let ds = natToDigits s; k = int (length ds); n = e + k in
      if k \<le> n \<and> n \<le> 21 then ds @ replicate (nat (n - k)) (CHR ''0'')
      else if 0 < n \<and> n \<le> 21 then take (nat n) ds @ ''.'' @ drop (nat n) ds
      else if - 6 < n \<and> n \<le> 0 then ''0.'' @ replicate (nat (- n)) (CHR ''0'') @ ds
      else
        (let es = (if n - 1 < 0 then ''-'' else ''+'') @ natToDigits (nat \<bar>n - 1\<bar>) in
         if k = 1 then ds @ ''e'' @ es
         else take 1 ds @ ''.'' @ drop 1 ds @ ''e'' @ es))"

fun numToString :: "jsnum \<Rightarrow> string" where
  "numToString NaN = ''NaN''"
| "numToString PosInfinity = ''Infinity''"
| "numToString NegInfinity = ''-Infinity''"
| "numToString (Dec m e) =
     (if m = 0 then ''0''
      else if m < 0 then ''-'' @ posToString (nat (- m)) e
      else posToString (nat m) e)"

text \<open>
  \<^verbatim>\<open>parseInt(string)\<close> with no radix: skip white space, read a sign, switch to radix
  sixteen after \<^verbatim>\<open>0x\<close>, take the longest run of digits; no digit at all is \<^verbatim>\<open>NaN\<close>.
\<close>

definition unsignedInteger :: "bool \<Rightarrow> string \<Rightarrow> jsnum" where
  "unsignedInteger neg S =
     (if take 2 S = ''0x'' \<or> take 2 S = ''0X''
      then (let Z = takeWhile isHexDigit (drop 2 S)
            in if Z = [] then NaN else mkNum neg (hexToNat Z) 0)
      else (let Z = takeWhile isDigit S
            in if Z = [] then NaN else mkNum neg (digitsToNat Z) 0))"

definition parseIntStr :: "string \<Rightarrow> jsnum" where
  "parseIntStr inputString =
     (let S = dropWhile isWhite inputString
      in if take 1 S = ''-'' then unsignedInteger True (drop 1 S)
         else if take 1 S = ''+'' then unsignedInteger False (drop 1 S)
         else unsignedInteger False S)"

text \<open>
  \<^verbatim>\<open>parseFloat(string)\<close>: skip white space, then the longest prefix that is a decimal
  literal: a sign, then \<^verbatim>\<open>Infinity\<close> or digits with an optional fraction and an
  optional exponent (an exponent counts only when it has a digit).
\<close>

definition exponentPart :: "string \<Rightarrow> int" where
  "exponentPart r =
     (if take 1 r = ''e'' \<or> take 1 r = ''E''
      then (let r1 = drop 1 r;
                neg = (take 1 r1 = ''-'');
                r2 = (if take 1 r1 = ''+'' \<or> take 1 r1 = ''-'' then drop 1 r1 else r1);
                es = takeWhile isDigit r2
            in if es = [] then 0
               else if neg then - int (digitsToNat es) else int (digitsToNat es))
      else 0)"

definition unsignedDecimal :: "bool \<Rightarrow> string \<Rightarrow> jsnum" where
  "unsignedDecimal neg S =
     (if take 8 S = ''Infinity'' then (if neg then NegInfinity else PosInfinity)
      else
        (let ds1 = takeWhile isDigit S;
             r1 = dropWhile isDigit S;
             ds2 = (if take 1 r1 = ''.'' then takeWhile isDigit (drop 1 r1) else []);
             r2 = (if take 1 r1 = ''.'' then dropWhile isDigit (drop 1 r1) else r1)
         in if ds1 = [] \<and> ds2 = [] then NaN
            else mkNum neg (digitsToNat (ds1 @ ds2)) (exponentPart r2 - int (length ds2))))"

definition parseFloatStr :: "string \<Rightarrow> jsnum" where
  "parseFloatStr inputString =
     (let S = dropWhile isWhite inputString
      in if take 1 S = ''-'' then unsignedDecimal True (drop 1 S)
         else if take 1 S = ''+'' then unsignedDecimal False (drop 1 S)
         else unsignedDecimal False S)"

text \<open>
  Native values are plain data: \<^verbatim>\<open>undefined\<close>, \<^verbatim>\<open>null\<close>, booleans, numbers, strings,
  arrays, and objects.  An object is the name of the constructor that built it and
  its own properties in insertion order.  Objects carry no methods of their own:
  what an object inherits is what \<^verbatim>\<open>Object.prototype\<close> provides.
\<close>

datatype jsval =
    JUndefined
  | JNull
  | JBool bool
  | JNum jsnum
  | JStr string
  | JArr "jsval list"
  | JObj string "(string \<times> jsval) list"

fun intercalate :: "string \<Rightarrow> string list \<Rightarrow> string" where
  "intercalate sep [] = []"
| "intercalate sep [x] = x"
| "intercalate sep (x # y # ys) = x @ sep @ intercalate sep (y # ys)"

text \<open>
  The conversion of a value to a string (\<^verbatim>\<open>ToString\<close>), which \<^verbatim>\<open>parseInt\<close> and
  \<^verbatim>\<open>parseFloat\<close> apply to their argument: an array joins its elements with commas
  (\<^verbatim>\<open>undefined\<close> and \<^verbatim>\<open>null\<close> elements are empty), an object is \<^verbatim>\<open>[object Object]\<close>.
\<close>

fun toStr :: "jsval \<Rightarrow> string"
  and joinElem :: "jsval \<Rightarrow> string" where
  "toStr JUndefined = ''undefined''"
| "toStr JNull = ''null''"
| "toStr (JBool b) = (if b then ''true'' else ''false'')"
| "toStr (JNum x) = numToString x"
| "toStr (JStr s) = s"
| "toStr (JArr xs) = intercalate '','' (map joinElem xs)"
| "toStr (JObj c fs) = ''[object Object]''"
| "joinElem v = (if v = JUndefined \<or> v = JNull then [] else toStr v)"

definition parseInt :: "jsval \<Rightarrow> jsnum" where
  "parseInt v = parseIntStr (toStr v)"

definition parseFloat :: "jsval \<Rightarrow> jsnum" where
  "parseFloat v = parseFloatStr (toStr v)"

text \<open>The method call \<^verbatim>\<open>v.toString()\<close>: \<^verbatim>\<open>undefined\<close> and \<^verbatim>\<open>null\<close> have no properties,
  so reading \<^verbatim>\<open>toString\<close> from them throws.\<close>

definition toString :: "jsval \<Rightarrow> jserr + string" where
  "toString v = (if v = JUndefined \<or> v = JNull then Inl TypeError else Inr (toStr v))"


section \<open>The document tree\<close>

text \<open>
  A DOM node as the serializer reads it: an element has a tag name and child nodes,
  a text node has neither a tag name nor children.  \<^verbatim>\<open>textContent\<close> is the text of all
  descendants in document order.
\<close>

datatype xml = Element string "xml list" | Text string

fun tagName :: "xml \<Rightarrow> string option" where
  "tagName (Element t cs) = Some t"
| "tagName (Text s) = None"

fun childNodes :: "xml \<Rightarrow> xml list" where
  "childNodes (Element t cs) = cs"
| "childNodes (Text s) = []"

fun textContent :: "xml \<Rightarrow> string" where
  "textContent (Element t cs) = concat (map textContent cs)"
| "textContent (Text s) = s"

text \<open>\<^verbatim>\<open>document.createElement(name)\<close> accepts XML names only.\<close>

definition isNameStartChar :: "char \<Rightarrow> bool" where
  "isNameStartChar c \<longleftrightarrow>
     (let n = (of_char c :: nat) in
      n = 58 \<or> (65 \<le> n \<and> n \<le> 90) \<or> n = 95 \<or> (97 \<le> n \<and> n \<le> 122)
      \<or> (192 \<le> n \<and> n \<le> 214) \<or> (216 \<le> n \<and> n \<le> 246) \<or> 248 \<le> n)"

definition isNameChar :: "char \<Rightarrow> bool" where
  "isNameChar c \<longleftrightarrow>
     isNameStartChar c \<or> isDigit c \<or> (of_char c :: nat) \<in> {45, 46, 183}"

fun xmlName :: "string \<Rightarrow> bool" where
  "xmlName [] = False"
| "xmlName (c # cs) = (isNameStartChar c \<and> list_all isNameChar cs)"

definition createElement :: "string \<Rightarrow> jserr + xml" where
  "createElement name = (if xmlName name then Inr (Element name []) else Inl InvalidCharacterError)"

fun appendChild :: "xml \<Rightarrow> xml \<Rightarrow> xml" where
  "appendChild (Element t cs) c = Element t (cs @ [c])"
| "appendChild (Text s) c = Text s"

text \<open>Assigning \<^verbatim>\<open>element.textContent\<close> replaces the children by one text node, or by
  none when the string is empty.\<close>

fun setTextContent :: "xml \<Rightarrow> string \<Rightarrow> xml" where
  "setTextContent (Element t cs) s = Element t (if s = [] then [] else [Text s])"
| "setTextContent (Text old) s = Text s"

section \<open>Property reads and writes\<close>

text \<open>
  \<^verbatim>\<open>obj[name] = x\<close> on an object kept as a list of its own properties: an existing
  property keeps its place, a new one goes last.
\<close>

fun assign :: "(string \<times> 'a) list \<Rightarrow> string \<Rightarrow> 'a \<Rightarrow> (string \<times> 'a) list" where
  "assign [] name x = [(name, x)]"
| "assign ((k, y) # ps) name x =
     (if k = name then (k, x) # ps else (k, y) # assign ps name x)"

text \<open>A canonical array index: the decimal numeral of a natural number.\<close>

definition arrayIndex :: "string \<Rightarrow> nat option" where
  "arrayIndex name =
     (if name \<noteq> [] \<and> list_all isDigit name \<and> natToDigits (digitsToNat name) = name
      then Some (digitsToNat name) else None)"

text \<open>
  \<^verbatim>\<open>value[name]\<close> on a native value.  Reading from \<^verbatim>\<open>undefined\<close> or \<^verbatim>\<open>null\<close> throws; an
  array and a string have a \<^verbatim>\<open>length\<close> and indexed elements; a property that is not
  there reads as \<^verbatim>\<open>undefined\<close>.
\<close>

fun getProp :: "jsval \<Rightarrow> string \<Rightarrow> jserr + jsval" where
  "getProp JUndefined name = Inl TypeError"
| "getProp JNull name = Inl TypeError"
| "getProp (JObj c fs) name =
     Inr (case map_of fs name of None \<Rightarrow> JUndefined | Some x \<Rightarrow> x)"
| "getProp (JArr xs) name =
     Inr (if name = ''length'' then JNum (mkNum False (length xs) 0)
          else case arrayIndex name of
                 None \<Rightarrow> JUndefined
               | Some i \<Rightarrow> if i < length xs then xs ! i else JUndefined)"
| "getProp (JStr s) name =
     Inr (if name = ''length'' then JNum (mkNum False (length s) 0)
          else case arrayIndex name of
                 None \<Rightarrow> JUndefined
               | Some i \<Rightarrow> if i < length s then JStr [s ! i] else JUndefined)"
| "getProp v name = Inr JUndefined"

text \<open>
  The names every plain object \<^verbatim>\<open>{}\<close> inherits from \<^verbatim>\<open>Object.prototype\<close>.  Reading one
  of them from a plain object gives a function (or the prototype), which is truthy.
\<close>

definition objectPrototypeNames :: "string list" where
  "objectPrototypeNames =
     [''constructor'', ''__defineGetter__'', ''__defineSetter__'', ''hasOwnProperty'',
      ''__lookupGetter__'', ''__lookupSetter__'', ''isPrototypeOf'',
      ''propertyIsEnumerable'', ''toString'', ''valueOf'', ''__proto__'',
      ''toLocaleString'']"

text \<open>Whether \<^verbatim>\<open>obj[name]\<close> is truthy, for a plain object whose own properties all hold
  objects: the property is its own, or it is inherited.\<close>

definition truthyProp :: "(string \<times> 'a) list \<Rightarrow> string \<Rightarrow> bool" where
  "truthyProp obj name \<longleftrightarrow> name \<in> fst ` set obj \<or> name \<in> set objectPrototypeNames"

text \<open>A property key from a tag name: a text node has no \<^verbatim>\<open>tagName\<close>, and \<^verbatim>\<open>undefined\<close>
  used as a key is the string \<^verbatim>\<open>undefined\<close>.\<close>

fun propKey :: "string option \<Rightarrow> string" where
  "propKey None = ''undefined''"
| "propKey (Some t) = t"

section \<open>Templates and intermediate objects\<close>

text \<open>
  The four value templates differ in their \<^verbatim>\<open>valueParser\<close> only.  An object template
  has the templates of its properties, in the order of \<^verbatim>\<open>Object.keys\<close>, and the name of
  its constructor.
\<close>

datatype vkind = TBoolean | TInteger | TNumber | TString

datatype ttype =
    TObject "(string \<times> ttype) list" string
  | TArray string ttype
  | TValue vkind

text \<open>The constructor of \<^verbatim>\<open>TObject\<close>: \<^verbatim>\<open>this.objectType = objectType || Object\<close>.\<close>

definition newTObject :: "(string \<times> ttype) list \<Rightarrow> string option \<Rightarrow> ttype" where
  "newTObject properties objectType =
     TObject properties (case objectType of None \<Rightarrow> ''Object'' | Some c \<Rightarrow> c)"

text \<open>
  An intermediate object keeps its template and its data.  The classes are private to
  the module and built by the templates' own methods only, so the template of a node is
  always of the node's kind; a node is written with the fields of that template:
  \<^verbatim>\<open>properties\<close> and \<^verbatim>\<open>objectType\<close> for \<open>DObject\<close>, the item's name and template for
  \<open>DArray\<close>, the kind for \<open>DValue\<close>.
\<close>

datatype dentity =
    DObject "(string \<times> ttype) list" string "(string \<times> dentity) list"
  | DArray string ttype "dentity list"
  | DValue vkind jsval

text \<open>The four parsers, in the order of the source: \<^verbatim>\<open>TBoolean\<close>, \<^verbatim>\<open>TInteger\<close>,
  \<^verbatim>\<open>TNumber\<close>, \<^verbatim>\<open>TString\<close>.\<close>

fun valueParser :: "vkind \<Rightarrow> jsval \<Rightarrow> jserr + jsval" where
  "valueParser TBoolean v =
     Inr (JBool (v = JStr ''true'' \<or> v = JBool True \<or> parseInt v = Dec 1 0))"
| "valueParser TInteger v = Inr (JNum (parseInt v))"
| "valueParser TNumber v = Inr (JNum (parseFloat v))"
| "valueParser TString v =
     (case toString v of Inl e \<Rightarrow> Inl e | Inr s \<Rightarrow> Inr (JStr s))"

section \<open>Ingestion\<close>

text \<open>
  \<^verbatim>\<open>fromJs\<close>.  The object template walks its own keys, reading \<^verbatim>\<open>value[name]\<close> for each
  and assigning the child's result to \<^verbatim>\<open>properties[name]\<close>; the array template calls
  \<^verbatim>\<open>value.map\<close>, which only an array has.  The first exception ends the walk.
\<close>

fun fromJs :: "ttype \<Rightarrow> jsval \<Rightarrow> jserr + dentity"
  and fromJsProps ::
    "(string \<times> ttype) list \<Rightarrow> jsval \<Rightarrow> (string \<times> dentity) list
       \<Rightarrow> jserr + (string \<times> dentity) list"
  and fromJsItems :: "ttype \<Rightarrow> jsval list \<Rightarrow> jserr + dentity list" where
  "fromJs (TObject ps objectType) value =
     (case fromJsProps ps value [] of
        Inl e \<Rightarrow> Inl e
      | Inr properties \<Rightarrow> Inr (DObject ps objectType properties))"
| "fromJs (TArray itemName itemTemplate) value =
     (case value of
        JArr xs \<Rightarrow>
          (case fromJsItems itemTemplate xs of
             Inl e \<Rightarrow> Inl e
           | Inr items \<Rightarrow> Inr (DArray itemName itemTemplate items))
      | _ \<Rightarrow> Inl TypeError)"
| "fromJs (TValue k) value =
     (case valueParser k value of Inl e \<Rightarrow> Inl e | Inr v \<Rightarrow> Inr (DValue k v))"
| "fromJsProps [] value properties = Inr properties"
| "fromJsProps ((name, t) # ps) value properties =
     (case getProp value name of
        Inl e \<Rightarrow> Inl e
      | Inr x \<Rightarrow>
          (case fromJs t x of
             Inl e \<Rightarrow> Inl e
           | Inr d \<Rightarrow> fromJsProps ps value (assign properties name d)))"
| "fromJsItems t [] = Inr []"
| "fromJsItems t (x # xs) =
     (case fromJs t x of
        Inl e \<Rightarrow> Inl e
      | Inr d \<Rightarrow>
          (case fromJsItems t xs of Inl e \<Rightarrow> Inl e | Inr ds \<Rightarrow> Inr (d # ds)))"


text \<open>
  \<^verbatim>\<open>fromXml\<close>.  The object template walks the child nodes in document order.  The guard
  \<^verbatim>\<open>!properties[name] && this.properties[name]\<close> reads both objects by truthiness;
  \<^verbatim>\<open>properties\<close> starts as a plain \<^verbatim>\<open>{}\<close>.  The array template keeps the children whose
  \<^verbatim>\<open>tagName\<close> is the item's name; a value template parses \<^verbatim>\<open>textContent\<close>.
\<close>

lemma size_childNodes: "size_list size (childNodes n) \<le> size n"
  by (cases n) simp_all

lemma size_filter_le: "size_list f (filter p xs) \<le> size_list f xs"
  by (induction xs) simp_all

lemma size_filter_childNodes: "size_list size (filter p (childNodes n)) \<le> size n"
  by (rule order_trans [OF size_filter_le size_childNodes])

function fromXml :: "ttype \<Rightarrow> xml \<Rightarrow> jserr + dentity"
  and fromXmlProps ::
    "(string \<times> ttype) list \<Rightarrow> xml list \<Rightarrow> (string \<times> dentity) list
       \<Rightarrow> jserr + (string \<times> dentity) list"
  and fromXmlItems :: "ttype \<Rightarrow> xml list \<Rightarrow> jserr + dentity list" where
  "fromXml (TObject ps objectType) value =
     (case fromXmlProps ps (childNodes value) [] of
        Inl e \<Rightarrow> Inl e
      | Inr properties \<Rightarrow> Inr (DObject ps objectType properties))"
| "fromXml (TArray itemName itemTemplate) value =
     (case fromXmlItems itemTemplate
             (filter (\<lambda>element. tagName element = Some itemName) (childNodes value)) of
        Inl e \<Rightarrow> Inl e
      | Inr items \<Rightarrow> Inr (DArray itemName itemTemplate items))"
| "fromXml (TValue k) value =
     (case valueParser k (JStr (textContent value)) of
        Inl e \<Rightarrow> Inl e
      | Inr v \<Rightarrow> Inr (DValue k v))"
| "fromXmlProps ps [] properties = Inr properties"
| "fromXmlProps ps (node # nodes) properties =
     (let name = propKey (tagName node) in
      if \<not> truthyProp properties name \<and> truthyProp ps name
      then (case map_of ps name of
              None \<Rightarrow> Inl TypeError
            | Some t \<Rightarrow>
                (case fromXml t node of
                   Inl e \<Rightarrow> Inl e
                 | Inr d \<Rightarrow> fromXmlProps ps nodes (assign properties name d)))
      else fromXmlProps ps nodes properties)"
| "fromXmlItems t [] = Inr []"
| "fromXmlItems t (element # elements) =
     (case fromXml t element of
        Inl e \<Rightarrow> Inl e
      | Inr d \<Rightarrow>
          (case fromXmlItems t elements of Inl e \<Rightarrow> Inl e | Inr ds \<Rightarrow> Inr (d # ds)))"
  by pat_completeness auto
termination
proof (relation "measure (\<lambda>x. case x of
         Inl (t, n) \<Rightarrow> 2 * size n + 1
       | Inr (Inl (ps, ns, acc)) \<Rightarrow> 2 * size_list size ns
       | Inr (Inr (t, ns)) \<Rightarrow> 2 * size_list size ns)", goal_cases)
  case 1
  show ?case by simp
next
  case (2 ps objectType "value")
  show ?case using size_childNodes [of "value"] by simp
next
  case (3 itemName itemTemplate "value")
  show ?case
    using size_filter_childNodes [of "\<lambda>element. tagName element = Some itemName" "value"]
    by simp
qed simp_all

text \<open>
  \<^verbatim>\<open>fromXmlString\<close>.  The parser is the host's: \<open>parseFromString\<close> gives the child
  nodes of the parsed document, and \<^verbatim>\<open>childNodes[0]\<close> of an empty list is
  \<^verbatim>\<open>undefined\<close>, from which every \<^verbatim>\<open>fromXml\<close> fails to read.
\<close>

definition fromXmlString :: "(string \<Rightarrow> xml list) \<Rightarrow> ttype \<Rightarrow> string \<Rightarrow> jserr + dentity" where
  "fromXmlString parseFromString t string =
     (case parseFromString string of
        [] \<Rightarrow> Inl TypeError
      | node # _ \<Rightarrow> fromXml t node)"

section \<open>Rendering\<close>

text \<open>
  \<^verbatim>\<open>toJs\<close>.  An object node calls its constructor, which gives an object without
  properties of its own, and assigns the rendered properties one by one.
\<close>

fun toJs :: "dentity \<Rightarrow> jsval"
  and toJsProps :: "(string \<times> dentity) list \<Rightarrow> (string \<times> jsval) list \<Rightarrow> (string \<times> jsval) list" where
  "toJs (DObject ps objectType properties) = JObj objectType (toJsProps properties [])"
| "toJs (DArray itemName itemTemplate items) = JArr (map toJs items)"
| "toJs (DValue k v) = v"
| "toJsProps [] result = result"
| "toJsProps ((name, d) # properties) result =
     toJsProps properties (assign result name (toJs d))"

text \<open>
  \<^verbatim>\<open>toXml\<close>.  Every node creates its element first, which fails on a name that is not
  an XML name; an object node appends one child per property under the property's
  name, an array node one child per item under the item's name, a value node sets the
  text to \<^verbatim>\<open>this.value.toString()\<close>.
\<close>

fun toXml :: "string \<Rightarrow> dentity \<Rightarrow> jserr + xml"
  and toXmlProps :: "(string \<times> dentity) list \<Rightarrow> xml \<Rightarrow> jserr + xml"
  and toXmlItems :: "string \<Rightarrow> dentity list \<Rightarrow> xml \<Rightarrow> jserr + xml" where
  "toXml name (DObject ps objectType properties) =
     (case createElement name of
        Inl e \<Rightarrow> Inl e
      | Inr element \<Rightarrow> toXmlProps properties element)"
| "toXml name (DArray itemName itemTemplate items) =
     (case createElement name of
        Inl e \<Rightarrow> Inl e
      | Inr element \<Rightarrow> toXmlItems itemName items element)"
| "toXml name (DValue k v) =
     (case createElement name of
        Inl e \<Rightarrow> Inl e
      | Inr element \<Rightarrow>
          (case toString v of
             Inl e \<Rightarrow> Inl e
           | Inr s \<Rightarrow> Inr (setTextContent element s)))"
| "toXmlProps [] element = Inr element"
| "toXmlProps ((name, d) # properties) element =
     (case toXml name d of
        Inl e \<Rightarrow> Inl e
      | Inr c \<Rightarrow> toXmlProps properties (appendChild element c))"
| "toXmlItems itemName [] element = Inr element"
| "toXmlItems itemName (item # items) element =
     (case toXml itemName item of
        Inl e \<Rightarrow> Inl e
      | Inr c \<Rightarrow> toXmlItems itemName items (appendChild element c))"

text \<open>
  \<^verbatim>\<open>toXmlString\<close> hangs the element under a fresh \<^verbatim>\<open>root\<close> element and returns that
  element's \<^verbatim>\<open>innerHTML\<close>: the host's serialization of its children, one after the other.
\<close>

definition innerHTML :: "(xml \<Rightarrow> string) \<Rightarrow> xml \<Rightarrow> string" where
  "innerHTML serialize element = concat (map serialize (childNodes element))"

definition toXmlString :: "(xml \<Rightarrow> string) \<Rightarrow> string \<Rightarrow> dentity \<Rightarrow> jserr + string" where
  "toXmlString serialize rootName d =
     (case createElement ''root'' of
        Inl e \<Rightarrow> Inl e
      | Inr rootElement \<Rightarrow>
          (case toXml rootName d of
             Inl e \<Rightarrow> Inl e
           | Inr c \<Rightarrow> Inr (innerHTML serialize (appendChild rootElement c))))"

section \<open>Rendering in a store\<close>

text \<open>
  What \<open>toJs\<close> and \<open>toXml\<close> return are objects with an identity: \<^verbatim>\<open>toJs\<close> creates an object
  with \<^verbatim>\<open>new\<close> and assigns to it, \<^verbatim>\<open>map\<close> creates an array, \<^verbatim>\<open>createElement\<close> creates an
  element and \<^verbatim>\<open>appendChild\<close> changes it.  Here the two renderings are written once more
  with the store explicit.  A store is the list of the cells allocated so far, the
  address of a cell is its index, and a new cell goes to the end.  A value is a
  primitive, which has no identity, or the address of an object or an array.
\<close>

datatype hval = HPrim jsval | HRef nat

datatype cell =
    CObject string "(string \<times> hval) list"
  | CArray "hval list"
  | CElement string "nat list"
  | CText string

type_synonym store = "cell list"

text \<open>\<^verbatim>\<open>result[name] = v\<close> on the object at address \<open>a\<close>.\<close>

definition setProp :: "store \<Rightarrow> nat \<Rightarrow> string \<Rightarrow> hval \<Rightarrow> store" where
  "setProp h a name v =
     (if a < length h
      then (case h ! a of CObject c fs \<Rightarrow> h[a := CObject c (assign fs name v)] | _ \<Rightarrow> h)
      else h)"

text \<open>The next element of the array that \<^verbatim>\<open>map\<close> fills, at address \<open>a\<close>.\<close>

definition pushItem :: "store \<Rightarrow> nat \<Rightarrow> hval \<Rightarrow> store" where
  "pushItem h a v =
     (if a < length h
      then (case h ! a of CArray vs \<Rightarrow> h[a := CArray (vs @ [v])] | _ \<Rightarrow> h)
      else h)"

text \<open>\<^verbatim>\<open>element.appendChild(c)\<close> on the element at address \<open>a\<close>.\<close>

definition appendChildH :: "store \<Rightarrow> nat \<Rightarrow> nat \<Rightarrow> store" where
  "appendChildH h a c =
     (if a < length h
      then (case h ! a of CElement t cs \<Rightarrow> h[a := CElement t (cs @ [c])] | _ \<Rightarrow> h)
      else h)"

text \<open>\<^verbatim>\<open>element.textContent = s\<close> on the fresh element at address \<open>a\<close>: a new text node
  becomes its only child, unless the string is empty.\<close>

definition setTextContentH :: "store \<Rightarrow> nat \<Rightarrow> string \<Rightarrow> store" where
  "setTextContentH h a s =
     (if s = [] then h else appendChildH (h @ [CText s]) a (length h))"

definition createElementH :: "string \<Rightarrow> store \<Rightarrow> jserr + nat \<times> store" where
  "createElementH name h =
     (if xmlName name then Inr (length h, h @ [CElement name []])
      else Inl InvalidCharacterError)"

text \<open>\<^verbatim>\<open>toJs\<close>: the object (the array) is created first, then filled child by child.\<close>

fun toJsH :: "dentity \<Rightarrow> store \<Rightarrow> hval \<times> store"
  and toJsPropsH :: "(string \<times> dentity) list \<Rightarrow> nat \<Rightarrow> store \<Rightarrow> store"
  and toJsItemsH :: "dentity list \<Rightarrow> nat \<Rightarrow> store \<Rightarrow> store" where
  "toJsH (DObject ps objectType properties) h =
     (HRef (length h), toJsPropsH properties (length h) (h @ [CObject objectType []]))"
| "toJsH (DArray itemName itemTemplate items) h =
     (HRef (length h), toJsItemsH items (length h) (h @ [CArray []]))"
| "toJsH (DValue k v) h = (HPrim v, h)"
| "toJsPropsH [] result h = h"
| "toJsPropsH ((name, d) # properties) result h =
     (case toJsH d h of (v, h') \<Rightarrow> toJsPropsH properties result (setProp h' result name v))"
| "toJsItemsH [] result h = h"
| "toJsItemsH (item # items) result h =
     (case toJsH item h of (v, h') \<Rightarrow> toJsItemsH items result (pushItem h' result v))"

text \<open>\<^verbatim>\<open>toXml\<close>: the element is created first, then each child is rendered and appended.\<close>

fun toXmlH :: "string \<Rightarrow> dentity \<Rightarrow> store \<Rightarrow> jserr + nat \<times> store"
  and toXmlPropsH :: "(string \<times> dentity) list \<Rightarrow> nat \<Rightarrow> store \<Rightarrow> jserr + store"
  and toXmlItemsH :: "string \<Rightarrow> dentity list \<Rightarrow> nat \<Rightarrow> store \<Rightarrow> jserr + store" where
  "toXmlH name (DObject ps objectType properties) h =
     (case createElementH name h of
        Inl e \<Rightarrow> Inl e
      | Inr (element, h') \<Rightarrow>
          (case toXmlPropsH properties element h' of
             Inl e \<Rightarrow> Inl e
           | Inr h'' \<Rightarrow> Inr (element, h'')))"
| "toXmlH name (DArray itemName itemTemplate items) h =
     (case createElementH name h of
        Inl e \<Rightarrow> Inl e
      | Inr (element, h') \<Rightarrow>
          (case toXmlItemsH itemName items element h' of
             Inl e \<Rightarrow> Inl e
           | Inr h'' \<Rightarrow> Inr (element, h'')))"
| "toXmlH name (DValue k v) h =
     (case createElementH name h of
        Inl e \<Rightarrow> Inl e
      | Inr (element, h') \<Rightarrow>
          (case toString v of
             Inl e \<Rightarrow> Inl e
           | Inr s \<Rightarrow> Inr (element, setTextContentH h' element s)))"
| "toXmlPropsH [] element h = Inr h"
| "toXmlPropsH ((name, d) # properties) element h =
     (case toXmlH name d h of
        Inl e \<Rightarrow> Inl e
      | Inr (c, h') \<Rightarrow> toXmlPropsH properties element (appendChildH h' element c))"
| "toXmlItemsH itemName [] element h = Inr h"
| "toXmlItemsH itemName (item # items) element h =
     (case toXmlH itemName item h of
        Inl e \<Rightarrow> Inl e
      | Inr (c, h') \<Rightarrow> toXmlItemsH itemName items element (appendChildH h' element c))"

section \<open>Notions the claims are stated with\<close>




text \<open>An integer among the numbers, and an integer of magnitude below \<open>10 ^ 21\<close>: the
  numbers that \<^verbatim>\<open>toString\<close> writes with all their digits, without an exponent.\<close>

fun isInteger :: "jsnum \<Rightarrow> bool" where
  "isInteger (Dec m e) = (0 \<le> e)"
| "isInteger _ = False"

fun smallInteger :: "jsnum \<Rightarrow> bool" where
  "smallInteger (Dec m e) = (0 \<le> e \<and> \<bar>m\<bar> * 10 ^ nat e < 10 ^ 21)"
| "smallInteger _ = False"

text \<open>
  A native value whose shape exactly matches a template: an object with exactly the
  declared fields, each matching its template; an array whose elements match the item
  template; a primitive already of the type its parser produces (a boolean, an
  integer, a number, a string).  What counts as an integer is a parameter: any integer
  (\<open>isInteger\<close>), or only those below \<open>10 ^ 21\<close> (\<open>smallInteger\<close>).  Objects have each
  key once, templates as well.
\<close>

fun matchesWith :: "(jsnum \<Rightarrow> bool) \<Rightarrow> ttype \<Rightarrow> jsval \<Rightarrow> bool"
  and matchesProps :: "(jsnum \<Rightarrow> bool) \<Rightarrow> (string \<times> ttype) list \<Rightarrow> (string \<times> jsval) list \<Rightarrow> bool"
  and matchesItems :: "(jsnum \<Rightarrow> bool) \<Rightarrow> ttype \<Rightarrow> jsval list \<Rightarrow> bool" where
  "matchesWith I (TObject ps objectType) v =
     (case v of
        JObj c fs \<Rightarrow>
          distinct (map fst ps) \<and> distinct (map fst fs)
          \<and> set (map fst fs) = set (map fst ps) \<and> matchesProps I ps fs
      | _ \<Rightarrow> False)"
| "matchesWith I (TArray itemName itemTemplate) v =
     (case v of JArr xs \<Rightarrow> matchesItems I itemTemplate xs | _ \<Rightarrow> False)"
| "matchesWith I (TValue TBoolean) v = (case v of JBool b \<Rightarrow> True | _ \<Rightarrow> False)"
| "matchesWith I (TValue TInteger) v = (case v of JNum x \<Rightarrow> wfNum x \<and> I x | _ \<Rightarrow> False)"
| "matchesWith I (TValue TNumber) v = (case v of JNum x \<Rightarrow> wfNum x | _ \<Rightarrow> False)"
| "matchesWith I (TValue TString) v = (case v of JStr s \<Rightarrow> True | _ \<Rightarrow> False)"
| "matchesProps I [] fs = True"
| "matchesProps I ((name, t) # ps) fs =
     ((case map_of fs name of None \<Rightarrow> False | Some x \<Rightarrow> matchesWith I t x)
      \<and> matchesProps I ps fs)"
| "matchesItems I t [] = True"
| "matchesItems I t (x # xs) = (matchesWith I t x \<and> matchesItems I t xs)"

text \<open>
  \<open>equalFields t r v\<close>: the value \<open>r\<close> equals \<open>v\<close> field for field, except that each
  object of \<open>r\<close> is built by the constructor that the template declares.  Objects are
  compared by their fields, whatever the order; arrays element by element; primitives
  are equal.
\<close>

fun equalFields :: "ttype \<Rightarrow> jsval \<Rightarrow> jsval \<Rightarrow> bool"
  and equalProps :: "(string \<times> ttype) list \<Rightarrow> (string \<times> jsval) list \<Rightarrow> (string \<times> jsval) list \<Rightarrow> bool"
  and equalItems :: "ttype \<Rightarrow> jsval list \<Rightarrow> jsval list \<Rightarrow> bool" where
  "equalFields (TObject ps objectType) r v =
     (case r of
        JObj cr fr \<Rightarrow>
          (case v of
             JObj cv fv \<Rightarrow>
               cr = objectType \<and> distinct (map fst fr)
               \<and> set (map fst fr) = set (map fst fv) \<and> equalProps ps fr fv
           | _ \<Rightarrow> False)
      | _ \<Rightarrow> False)"
| "equalFields (TArray itemName itemTemplate) r v =
     (case r of
        JArr rs \<Rightarrow> (case v of JArr vs \<Rightarrow> equalItems itemTemplate rs vs | _ \<Rightarrow> False)
      | _ \<Rightarrow> False)"
| "equalFields (TValue k) r v = (r = v)"
| "equalProps [] fr fv = True"
| "equalProps ((name, t) # ps) fr fv =
     ((case map_of fr name of
         None \<Rightarrow> False
       | Some r \<Rightarrow> (case map_of fv name of None \<Rightarrow> False | Some v \<Rightarrow> equalFields t r v))
      \<and> equalProps ps fr fv)"
| "equalItems t [] [] = True"
| "equalItems t (r # rs) (v # vs) = (equalFields t r v \<and> equalItems t rs vs)"
| "equalItems t _ _ = False"

text \<open>
  Templates whose names can be tags: every property name and every item name is an XML
  name, and no property is named like a member that \<^verbatim>\<open>{}\<close> inherits.
\<close>

fun tagsOk :: "ttype \<Rightarrow> bool"
  and tagsOkProps :: "(string \<times> ttype) list \<Rightarrow> bool" where
  "tagsOk (TObject ps objectType) = tagsOkProps ps"
| "tagsOk (TArray itemName itemTemplate) = (xmlName itemName \<and> tagsOk itemTemplate)"
| "tagsOk (TValue k) = True"
| "tagsOkProps [] = True"
| "tagsOkProps ((name, t) # ps) =
     (xmlName name \<and> name \<notin> set objectPrototypeNames \<and> tagsOk t \<and> tagsOkProps ps)"

text \<open>
  A host for the examples: the XML text of a tree (an empty element is written
  \<^verbatim>\<open><t/>\<close>; \<^verbatim>\<open>&\<close>, \<^verbatim>\<open><\<close> and \<^verbatim>\<open>>\<close> are escaped in text).
\<close>

fun escapeText :: "string \<Rightarrow> string" where
  "escapeText [] = []"
| "escapeText (c # cs) =
     (if c = CHR ''&'' then ''&amp;''
      else if c = CHR ''<'' then ''&lt;''
      else if c = CHR ''>'' then ''&gt;''
      else [c]) @ escapeText cs"

fun serializeXml :: "xml \<Rightarrow> string" where
  "serializeXml (Text s) = escapeText s"
| "serializeXml (Element t cs) =
     (if cs = [] then ''<'' @ t @ ''/>''
      else ''<'' @ t @ ''>'' @ concat (map serializeXml cs) @ ''</'' @ t @ ''>'')"

text \<open>
  Cells moved by \<open>n\<close> addresses, and a block of cells that refers to its own cells
  only.  Two blocks that are each other's image under a move have the same structure;
  two closed blocks at different places of a store share nothing.
\<close>

fun shiftVal :: "nat \<Rightarrow> hval \<Rightarrow> hval" where
  "shiftVal n (HPrim p) = HPrim p"
| "shiftVal n (HRef a) = HRef (a + n)"

fun shiftCell :: "nat \<Rightarrow> cell \<Rightarrow> cell" where
  "shiftCell n (CObject c fs) = CObject c (map (\<lambda>f. (fst f, shiftVal n (snd f))) fs)"
| "shiftCell n (CArray vs) = CArray (map (shiftVal n) vs)"
| "shiftCell n (CElement t cs) = CElement t (map (\<lambda>a. a + n) cs)"
| "shiftCell n (CText s) = CText s"

fun valRefs :: "hval \<Rightarrow> nat list" where
  "valRefs (HPrim p) = []"
| "valRefs (HRef a) = [a]"

fun cellRefs :: "cell \<Rightarrow> nat list" where
  "cellRefs (CObject c fs) = concat (map (\<lambda>f. valRefs (snd f)) fs)"
| "cellRefs (CArray vs) = concat (map valRefs vs)"
| "cellRefs (CElement t cs) = cs"
| "cellRefs (CText s) = []"

definition closedBlock :: "cell list \<Rightarrow> bool" where
  "closedBlock R \<longleftrightarrow> list_all (\<lambda>c. list_all (\<lambda>a. a < length R) (cellRefs c)) R"

text \<open>The primitives, and the intermediate objects whose value nodes hold primitives:
  the ones that the templates build.\<close>

fun isPrimitive :: "jsval \<Rightarrow> bool" where
  "isPrimitive (JArr xs) = False"
| "isPrimitive (JObj c fs) = False"
| "isPrimitive v = True"

fun primNode :: "dentity \<Rightarrow> bool"
  and primProps :: "(string \<times> dentity) list \<Rightarrow> bool"
  and primItems :: "dentity list \<Rightarrow> bool" where
  "primNode (DObject ps objectType properties) = primProps properties"
| "primNode (DArray itemName itemTemplate items) = primItems items"
| "primNode (DValue k v) = isPrimitive v"
| "primProps [] = True"
| "primProps ((name, d) # properties) = (primNode d \<and> primProps properties)"
| "primItems [] = True"
| "primItems (d # items) = (primNode d \<and> primItems items)"

section \<open>The examples of the specification\<close>

text \<open>The tree \<^verbatim>\<open><c><n>3</n><other>9</other><n>5</n></c>\<close> and the node that
  \<^verbatim>\<open>Array("n", Integer())\<close> reads from it.\<close>

definition arrayExample :: xml where
  "arrayExample =
     Element ''c'' [Element ''n'' [Text ''3''], Element ''other'' [Text ''9''],
                    Element ''n'' [Text ''5'']]"

definition arrayExampleNode :: dentity where
  "arrayExampleNode =
     DArray ''n'' (TValue TInteger)
       [DValue TInteger (JNum (Dec 3 0)), DValue TInteger (JNum (Dec 5 0))]"


text \<open>
  The example of the README: \<^verbatim>\<open>Object({a: Number(), b: Boolean(), c: Array("number",
  Number())})\<close> and the data \<^verbatim>\<open>{a: 15, b: true, c: [3, 5]}\<close>, with the intermediate object
  and the element named \<^verbatim>\<open>root\<close> that they give.
\<close>

definition exampleTemplate :: ttype where
  "exampleTemplate =
     TObject [(''a'', TValue TNumber), (''b'', TValue TBoolean),
              (''c'', TArray ''number'' (TValue TNumber))] ''Object''"

definition exampleValue :: jsval where
  "exampleValue =
     JObj ''Object'' [(''a'', JNum (Dec 15 0)), (''b'', JBool True),
                      (''c'', JArr [JNum (Dec 3 0), JNum (Dec 5 0)])]"

definition exampleNode :: dentity where
  "exampleNode =
     DObject [(''a'', TValue TNumber), (''b'', TValue TBoolean),
              (''c'', TArray ''number'' (TValue TNumber))] ''Object''
       [(''a'', DValue TNumber (JNum (Dec 15 0))), (''b'', DValue TBoolean (JBool True)),
        (''c'', DArray ''number'' (TValue TNumber)
                  [DValue TNumber (JNum (Dec 3 0)), DValue TNumber (JNum (Dec 5 0))])]"

definition exampleTree :: xml where
  "exampleTree =
     Element ''root''
       [Element ''a'' [Text ''15''], Element ''b'' [Text ''true''],
        Element ''c'' [Element ''number'' [Text ''3''], Element ''number'' [Text ''5'']]]"

text \<open>A parser that knows this one document.\<close>

definition exampleParser :: "string \<Rightarrow> xml list" where
  "exampleParser s = (if s = serializeXml exampleTree then [exampleTree] else [])"



text \<open>A template with a property name that is no XML name, and data for it.\<close>

definition spaceTemplate :: ttype where
  "spaceTemplate = TObject [(''first name'', TValue TString)] ''Object''"

definition spaceValue :: jsval where
  "spaceValue = JObj ''Object'' [(''first name'', JStr ''Ada'')]"


text \<open>The cells that \<open>toJs\<close> and \<open>toXml\<close> of the README example add to an empty store.\<close>

definition exampleBlock :: "cell list" where
  "exampleBlock =
     [CObject ''Object''
        [(''a'', HPrim (JNum (Dec 15 0))), (''b'', HPrim (JBool True)), (''c'', HRef 1)],
      CArray [HPrim (JNum (Dec 3 0)), HPrim (JNum (Dec 5 0))]]"

definition exampleElements :: "cell list" where
  "exampleElements =
     [CElement ''root'' [1, 3, 5], CElement ''a'' [2], CText ''15'', CElement ''b'' [4],
      CText ''true'', CElement ''c'' [6, 8], CElement ''number'' [7], CText ''3'',
      CElement ''number'' [9], CText ''5'']"

section \<open>Numbers and their text\<close>

lemma digitVal_digitChar: "d < 10 \<Longrightarrow> digitVal (digitChar d) = d"
  by (simp add: digitVal_def digitChar_def)

lemma isDigit_digitChar: "d < 10 \<Longrightarrow> isDigit (digitChar d)"
  by (simp add: isDigit_def digitChar_def)

lemma natToDigits_digits: "c \<in> set (natToDigits n) \<Longrightarrow> isDigit c"
proof (induction n rule: natToDigits.induct)
  case (1 n)
  then show ?case
    by (subst (asm) (2) natToDigits.simps) (auto simp: isDigit_digitChar split: if_splits)
qed

lemma natToDigits_ne: "natToDigits n \<noteq> []"
  by (subst natToDigits.simps) simp

lemma digitsToNat_snoc: "digitsToNat (ds @ [c]) = 10 * digitsToNat ds + digitVal c"
  by (simp add: digitsToNat_def)

lemma digitsToNat_natToDigits: "digitsToNat (natToDigits n) = n"
proof (induction n rule: natToDigits.induct)
  case (1 n)
  show ?case
  proof (cases "n < 10")
    case True
    then show ?thesis
      by (subst natToDigits.simps) (simp add: digitsToNat_def digitVal_digitChar)
  next
    case False
    with 1 show ?thesis
      by (subst natToDigits.simps) (simp add: digitsToNat_snoc digitVal_digitChar)
  qed
qed

lemma foldl_digits: "foldl (\<lambda>a c. 10 * a + digitVal c) a ys
   = a * 10 ^ length ys + foldl (\<lambda>a c. 10 * a + digitVal c) 0 ys"
proof (induction ys rule: rev_induct)
  case Nil
  then show ?case by simp
next
  case (snoc y ys)
  then show ?case by (simp add: algebra_simps)
qed

lemma digitsToNat_append:
  "digitsToNat (xs @ ys) = digitsToNat xs * 10 ^ length ys + digitsToNat ys"
  unfolding digitsToNat_def foldl_append by (rule foldl_digits)

lemma digitsToNat_zeros: "digitsToNat (replicate j (CHR ''0'')) = 0"
proof (induction j)
  case 0
  then show ?case by (simp add: digitsToNat_def)
next
  case (Suc j)
  have "replicate (Suc j) (CHR ''0'') = replicate j (CHR ''0'') @ [CHR ''0'']"
    by (simp add: replicate_append_same)
  then show ?case using Suc by (simp only: digitsToNat_snoc) (simp add: digitVal_def)
qed

lemma length_natToDigits: "0 < n \<Longrightarrow> n < 10 ^ length (natToDigits n)"
proof (induction n rule: natToDigits.induct)
  case (1 n)
  show ?case
  proof (cases "n < 10")
    case True
    then show ?thesis by (subst natToDigits.simps) simp
  next
    case False
    then have "n div 10 < 10 ^ length (natToDigits (n div 10))" using 1 by simp
    then have "n < 10 * 10 ^ length (natToDigits (n div 10))" by simp
    with False show ?thesis by (subst natToDigits.simps) simp
  qed
qed

lemma length_natToDigits_lower: "0 < n \<Longrightarrow> 10 ^ (length (natToDigits n) - 1) \<le> n"
proof (induction n rule: natToDigits.induct)
  case (1 n)
  show ?case
  proof (cases "n < 10")
    case True
    with 1(2) show ?thesis by (subst natToDigits.simps) simp
  next
    case False
    then have "10 ^ (length (natToDigits (n div 10)) - 1) \<le> n div 10" using 1 by simp
    then have "10 * 10 ^ (length (natToDigits (n div 10)) - 1) \<le> n" by simp
    moreover have "length (natToDigits (n div 10)) \<noteq> 0" using natToDigits_ne by simp
    ultimately have "10 ^ length (natToDigits (n div 10)) \<le> n"
      by (cases "length (natToDigits (n div 10))") simp_all
    with False show ?thesis by (subst natToDigits.simps) simp
  qed
qed

lemma stripZeros_id: "m mod 10 \<noteq> 0 \<Longrightarrow> stripZeros m e = (m, e)"
  by (subst stripZeros.simps) simp

lemma stripZeros_pow: "m \<noteq> 0 \<Longrightarrow> stripZeros (m * 10 ^ j) e = stripZeros m (e + int j)"
proof (induction j arbitrary: e)
  case 0
  then show ?case by simp
next
  case (Suc j)
  have "stripZeros (m * 10 ^ Suc j) e = stripZeros (m * 10 ^ j) (e + 1)"
    using Suc.prems by (subst stripZeros.simps) simp
  also have "\<dots> = stripZeros m (e + 1 + int j)" using Suc by simp
  finally show ?case by (simp add: add.assoc)
qed

lemma mkNum_norm:
  "0 < m \<Longrightarrow> m mod 10 \<noteq> 0
     \<Longrightarrow> mkNum neg (m * 10 ^ j) e = Dec (if neg then - int m else int m) (e + int j)"
  by (simp add: mkNum_def stripZeros_pow stripZeros_id)

lemma mkNum_norm0:
  "0 < m \<Longrightarrow> m mod 10 \<noteq> 0 \<Longrightarrow> mkNum neg m e = Dec (if neg then - int m else int m) e"
  using mkNum_norm [of m neg 0 e] by simp

lemma takeWhile_digits:
  "takeWhile isDigit (natToDigits n @ r) = natToDigits n @ takeWhile isDigit r"
  by (rule takeWhile_append2) (rule natToDigits_digits)

lemma dropWhile_digits:
  "dropWhile isDigit (natToDigits n @ r) = dropWhile isDigit r"
  by (rule dropWhile_append2) (rule natToDigits_digits)

lemma not_digit_chars:
  "\<not> isDigit (CHR ''.'')" "\<not> isDigit (CHR ''e'')" "\<not> isDigit (CHR ''I'')"
  "\<not> isDigit (CHR ''x'')" "\<not> isDigit (CHR ''X'')" "\<not> isDigit (CHR ''-'')" "\<not> isDigit (CHR ''+'')"
  "\<not> isDigit (CHR ''N'')"
  by (simp_all add: isDigit_def)

lemma digit_not_white: "isDigit c \<Longrightarrow> \<not> isWhite c"
  by (auto simp: isDigit_def isWhite_def)

lemma isDigit_zero: "isDigit (CHR ''0'')"
  by (simp add: isDigit_def)

lemma takeWhile_all: "\<forall>c\<in>set a. P c \<Longrightarrow> takeWhile P a = a"
  by (simp add: takeWhile_eq_all_conv)

lemma dropWhile_all: "\<forall>c\<in>set a. P c \<Longrightarrow> dropWhile P a = []"
  by simp

lemma not_Infinity: "a \<noteq> [] \<Longrightarrow> isDigit (hd a) \<Longrightarrow> take 8 (a @ r) \<noteq> ''Infinity''"
  by (cases a) (auto simp: not_digit_chars)

lemma exponentPart_Nil: "exponentPart [] = 0"
  by (simp add: exponentPart_def)

lemma takeWhile_natToDigits: "takeWhile isDigit (natToDigits X) = natToDigits X"
  by (rule takeWhile_all) (simp add: natToDigits_digits)

lemma exponentPart_plus: "exponentPart (''e+'' @ natToDigits X) = int X"
  by (simp add: exponentPart_def Let_def natToDigits_ne digitsToNat_natToDigits
        takeWhile_natToDigits)

lemma exponentPart_minus: "exponentPart (''e-'' @ natToDigits X) = - int X"
  by (simp add: exponentPart_def Let_def natToDigits_ne digitsToNat_natToDigits
        takeWhile_natToDigits)

text \<open>A literal without a point: digits, then nothing or an exponent.\<close>

lemma unsignedDecimal_plain:
  assumes "\<forall>c\<in>set a. isDigit c" and "a \<noteq> []" and "r = [] \<or> (\<exists>es. r = CHR ''e'' # es)"
  shows "unsignedDecimal neg (a @ r) = mkNum neg (digitsToNat a) (exponentPart r)"
proof -
  have h: "isDigit (hd a)" using assms(1,2) by (cases a) auto
  have t: "takeWhile isDigit (a @ r) = a" "dropWhile isDigit (a @ r) = r"
    using assms(1,3) by (auto simp: takeWhile_append2 dropWhile_append2 not_digit_chars)
  have d: "take 1 r \<noteq> ''.''" using assms(3) by auto
  show ?thesis
    unfolding unsignedDecimal_def Let_def t
    using not_Infinity [OF assms(2) h, of r] d assms(2) by simp
qed

text \<open>A literal with a point: digits, a point, digits, then nothing or an exponent.\<close>

lemma unsignedDecimal_point:
  assumes "\<forall>c\<in>set a. isDigit c" and "a \<noteq> []" and "\<forall>c\<in>set b. isDigit c"
    and "r = [] \<or> (\<exists>es. r = CHR ''e'' # es)"
  shows "unsignedDecimal neg (a @ ''.'' @ b @ r)
         = mkNum neg (digitsToNat (a @ b)) (exponentPart r - int (length b))"
proof -
  have h: "isDigit (hd a)" using assms(1,2) by (cases a) auto
  have t: "takeWhile isDigit (a @ ''.'' @ b @ r) = a"
    "dropWhile isDigit (a @ ''.'' @ b @ r) = ''.'' @ b @ r"
    using assms(1) by (auto simp: takeWhile_append2 dropWhile_append2 not_digit_chars)
  have u: "takeWhile isDigit (b @ r) = b" "dropWhile isDigit (b @ r) = r"
    using assms(3,4) by (auto simp: takeWhile_append2 dropWhile_append2 not_digit_chars)
  show ?thesis
    unfolding unsignedDecimal_def Let_def t
    using not_Infinity [OF assms(2) h, of "''.'' @ b @ r"] u assms(2) by simp
qed

lemma set_take_digits: "c \<in> set (take i (natToDigits s)) \<Longrightarrow> isDigit c"
  by (meson in_set_takeD natToDigits_digits)

lemma set_drop_digits: "c \<in> set (drop i (natToDigits s)) \<Longrightarrow> isDigit c"
  by (meson in_set_dropD natToDigits_digits)

lemma unsignedDecimal_posToString:
  assumes "0 < s" and "s mod 10 \<noteq> 0"
  shows "unsignedDecimal neg (posToString s e) = Dec (if neg then - int s else int s) e"
proof -
  define ds where "ds = natToDigits s"
  define k where "k = int (length ds)"
  define n where "n = e + k"
  have dig: "\<forall>c\<in>set ds. isDigit c" using natToDigits_digits by (auto simp: ds_def)
  have ne: "ds \<noteq> []" by (simp add: ds_def natToDigits_ne)
  have val: "digitsToNat ds = s" by (simp add: ds_def digitsToNat_natToDigits)
  have kpos: "0 < k" using ne by (simp add: k_def)
  define es where "es = (if n - 1 < 0 then ''e-'' else ''e+'') @ natToDigits (nat \<bar>n - 1\<bar>)"
  have P: "posToString s e =
     (if k \<le> n \<and> n \<le> 21 then ds @ replicate (nat (n - k)) (CHR ''0'')
      else if 0 < n \<and> n \<le> 21 then take (nat n) ds @ ''.'' @ drop (nat n) ds
      else if - 6 < n \<and> n \<le> 0 then ''0.'' @ replicate (nat (- n)) (CHR ''0'') @ ds
      else if k = 1 then ds @ es
      else take 1 ds @ ''.'' @ drop 1 ds @ es)"
    unfolding posToString_def ds_def k_def n_def es_def Let_def by simp
  consider (a) "k \<le> n \<and> n \<le> 21"
    | (b) "\<not> (k \<le> n \<and> n \<le> 21)" "0 < n \<and> n \<le> 21"
    | (c) "\<not> (k \<le> n \<and> n \<le> 21)" "\<not> (0 < n \<and> n \<le> 21)" "- 6 < n \<and> n \<le> 0"
    | (d) "\<not> (k \<le> n \<and> n \<le> 21)" "\<not> (0 < n \<and> n \<le> 21)" "\<not> (- 6 < n \<and> n \<le> 0)"
    by blast
  then show ?thesis
  proof cases
    case a
    let ?z = "replicate (nat (n - k)) (CHR ''0'')"
    have str: "posToString s e = (ds @ ?z) @ []"
      using a by (simp add: P)
    have all: "\<forall>c\<in>set (ds @ ?z). isDigit c" using dig by (auto simp: isDigit_zero)
    have "unsignedDecimal neg (posToString s e) = mkNum neg (digitsToNat (ds @ ?z)) 0"
      unfolding str using unsignedDecimal_plain [OF all, of "[]" neg] ne
      by (simp add: exponentPart_Nil)
    also have "digitsToNat (ds @ ?z) = s * 10 ^ nat (n - k)"
      by (simp add: digitsToNat_append digitsToNat_zeros val)
    also have "mkNum neg (s * 10 ^ nat (n - k)) 0 = Dec (if neg then - int s else int s) e"
      using mkNum_norm [OF assms, of neg "nat (n - k)" 0] a by (simp add: n_def)
    finally show ?thesis .
  next
    case b
    then have nk: "n < k" by linarith
    let ?a = "take (nat n) ds" and ?b = "drop (nat n) ds"
    have str: "posToString s e = ?a @ ''.'' @ ?b @ []"
      using b by (simp add: P)
    have A: "\<forall>c\<in>set ?a. isDigit c" "\<forall>c\<in>set ?b. isDigit c"
      using dig by (auto dest: in_set_takeD in_set_dropD)
    have ane: "?a \<noteq> []" using b ne by auto
    have len: "int (length ?b) = k - n" using b nk by (simp add: k_def)
    have "unsignedDecimal neg (posToString s e) = mkNum neg (digitsToNat (?a @ ?b)) (0 - int (length ?b))"
      unfolding str using unsignedDecimal_point [OF A(1) ane A(2), of "[]" neg]
      by (simp add: exponentPart_Nil)
    also have "\<dots> = mkNum neg s e"
    proof -
      have 1: "digitsToNat (?a @ ?b) = s" by (simp add: val)
      have 2: "0 - int (length ?b) = e" unfolding len by (simp add: n_def)
      show ?thesis by (simp only: 1 2)
    qed
    also have "\<dots> = Dec (if neg then - int s else int s) e" by (rule mkNum_norm0 [OF assms])
    finally show ?thesis .
  next
    case c
    let ?z = "replicate (nat (- n)) (CHR ''0'')"
    have str: "posToString s e = ''0'' @ ''.'' @ (?z @ ds) @ []"
      using c by (simp add: P)
    have A: "\<forall>c\<in>set ''0''. isDigit c" "\<forall>c\<in>set (?z @ ds). isDigit c"
      using dig by (auto simp: isDigit_zero)
    have len: "int (length (?z @ ds)) = k - n" using c by (simp add: k_def)
    have v0: "digitsToNat ''0'' = 0" by (simp add: digitsToNat_def digitVal_def)
    have v1: "digitsToNat (?z @ ds) = s"
      by (simp only: digitsToNat_append digitsToNat_zeros val)
    have v: "digitsToNat (''0'' @ ?z @ ds) = s"
      by (simp only: digitsToNat_append [of "''0''" "?z @ ds"] v0 v1)
    have "unsignedDecimal neg (posToString s e)
          = mkNum neg (digitsToNat (''0'' @ ?z @ ds)) (0 - int (length (?z @ ds)))"
      unfolding str using unsignedDecimal_point [OF A(1) _ A(2), of "[]" neg]
      by (simp add: exponentPart_Nil)
    also have "\<dots> = mkNum neg s e" unfolding v len by (simp add: n_def)
    also have "\<dots> = Dec (if neg then - int s else int s) e" by (rule mkNum_norm0 [OF assms])
    finally show ?thesis .
  next
    case d
    have ex: "exponentPart es = n - 1"
      by (auto simp: es_def exponentPart_minus exponentPart_plus simp del: append.simps)
    have tl: "es = [] \<or> (\<exists>r. es = CHR ''e'' # r)" by (auto simp: es_def)
    show ?thesis
    proof (cases "k = 1")
      case True
      have str: "posToString s e = ds @ es"
        using d True by (auto simp: P)
      have "unsignedDecimal neg (posToString s e) = mkNum neg s (n - 1)"
        unfolding str using unsignedDecimal_plain [OF dig ne tl, of neg] by (simp add: val ex)
      also have "\<dots> = Dec (if neg then - int s else int s) e"
        using mkNum_norm0 [OF assms, of neg "n - 1"] True by (simp add: n_def)
      finally show ?thesis .
    next
      case False
      let ?a = "take 1 ds" and ?b = "drop 1 ds"
      have str: "posToString s e = ?a @ ''.'' @ ?b @ es"
        using d False by (auto simp: P)
      have A: "\<forall>c\<in>set ?a. isDigit c" "\<forall>c\<in>set ?b. isDigit c"
        using dig by (auto dest: in_set_takeD in_set_dropD)
      have ane: "?a \<noteq> []" using ne by auto
      have len: "int (length ?b) = k - 1" using ne by (cases ds) (simp_all add: k_def)
      have "unsignedDecimal neg (posToString s e)
            = mkNum neg (digitsToNat (?a @ ?b)) (exponentPart es - int (length ?b))"
        unfolding str by (rule unsignedDecimal_point [OF A(1) ane A(2) tl])
      also have "\<dots> = mkNum neg s e"
      proof -
        have 1: "digitsToNat (?a @ ?b) = s" by (simp add: val)
        have 2: "exponentPart es - int (length ?b) = e" unfolding len ex by (simp add: n_def)
        show ?thesis by (simp only: 1 2)
      qed
      also have "\<dots> = Dec (if neg then - int s else int s) e" by (rule mkNum_norm0 [OF assms])
      finally show ?thesis .
    qed
  qed
qed

lemma abs_mod10: "(m::int) mod 10 \<noteq> 0 \<Longrightarrow> nat \<bar>m\<bar> mod 10 \<noteq> 0"
proof -
  assume "m mod 10 \<noteq> 0"
  then have "\<not> 10 dvd m" by (simp add: mod_eq_0_iff_dvd)
  then have "\<not> (10::nat) dvd nat \<bar>m\<bar>" by (simp add: dvd_nat_abs_iff)
  then show ?thesis by (simp add: mod_eq_0_iff_dvd)
qed

lemma pow_bound:
  assumes "(10::nat) ^ j \<le> s" and "int s * 10 ^ i < 10 ^ 21"
  shows "j + i < 21"
proof -
  have "int ((10::nat) ^ (j + i)) = int (10 ^ j) * 10 ^ i" by (simp add: power_add)
  also have "\<dots> \<le> int s * 10 ^ i" using assms(1) by (intro mult_right_mono) simp_all
  also have "\<dots> < 10 ^ 21" by (rule assms(2))
  finally have "int ((10::nat) ^ (j + i)) < int (10 ^ 21)" by simp
  then have "(10::nat) ^ (j + i) < 10 ^ 21" by (simp only: of_nat_less_iff)
  from power_less_imp_less_exp [OF _ this] show ?thesis by simp
qed

lemma posToString_head:
  assumes "0 < s"
  shows "posToString s e \<noteq> [] \<and> isDigit (hd (posToString s e))"
proof -
  define ds where "ds = natToDigits s"
  have ne: "ds \<noteq> []" by (simp add: ds_def natToDigits_ne)
  have h: "isDigit (hd ds)" using ne natToDigits_digits [of "hd ds" s] by (simp add: ds_def)
  have t: "0 < i \<Longrightarrow> take i ds \<noteq> [] \<and> hd (take i ds) = hd ds" for i
    using ne by (cases ds; cases i) auto
  show ?thesis
    unfolding posToString_def Let_def ds_def [symmetric]
    using ne h t [of 1] t [of "nat (e + int (length ds))"] by (auto simp: isDigit_zero)
qed

lemma parseFloatStr_digit:
  assumes "S \<noteq> []" and "isDigit (hd S)"
  shows "parseFloatStr S = unsignedDecimal False S"
    and "parseFloatStr (CHR ''-'' # S) = unsignedDecimal True S"
proof -
  obtain c r where S: "S = c # r" using assms(1) by (cases S) auto
  have c: "isDigit c" using assms(2) by (simp add: S)
  then have "\<not> isWhite c" "c \<noteq> CHR ''-''" "c \<noteq> CHR ''+''"
    using digit_not_white not_digit_chars by auto
  then show "parseFloatStr S = unsignedDecimal False S"
    by (simp add: parseFloatStr_def S)
  have "\<not> isWhite (CHR ''-'')" by (simp add: isWhite_def)
  then show "parseFloatStr (CHR ''-'' # S) = unsignedDecimal True S"
    by (simp add: parseFloatStr_def)
qed

lemma parseIntStr_digit:
  assumes "S \<noteq> []" and "isDigit (hd S)"
  shows "parseIntStr S = unsignedInteger False S"
    and "parseIntStr (CHR ''-'' # S) = unsignedInteger True S"
proof -
  obtain c r where S: "S = c # r" using assms(1) by (cases S) auto
  have c: "isDigit c" using assms(2) by (simp add: S)
  then have "\<not> isWhite c" "c \<noteq> CHR ''-''" "c \<noteq> CHR ''+''"
    using digit_not_white not_digit_chars by auto
  then show "parseIntStr S = unsignedInteger False S"
    by (simp add: parseIntStr_def S)
  have "\<not> isWhite (CHR ''-'')" by (simp add: isWhite_def)
  then show "parseIntStr (CHR ''-'' # S) = unsignedInteger True S"
    by (simp add: parseIntStr_def)
qed

text \<open>Reading a number back from its own text gives the number.\<close>

lemma parseFloatStr_numToString: "wfNum x \<Longrightarrow> parseFloatStr (numToString x) = x"
proof (cases x)
  case NaN
  have "parseFloatStr ''NaN'' = NaN" by code_simp
  with NaN show ?thesis by simp
next
  case PosInfinity
  have "parseFloatStr ''Infinity'' = PosInfinity" by code_simp
  with PosInfinity show ?thesis by simp
next
  case NegInfinity
  have "parseFloatStr ''-Infinity'' = NegInfinity" by code_simp
  with NegInfinity show ?thesis by simp
next
  case (Dec m e)
  assume wf: "wfNum x"
  show ?thesis
  proof (cases "m = 0")
    case True
    have "parseFloatStr ''0'' = Dec 0 0" by code_simp
    with True wf Dec show ?thesis by simp
  next
    case False
    define s where "s = nat \<bar>m\<bar>"
    have s: "0 < s" "s mod 10 \<noteq> 0"
      using False wf Dec abs_mod10 [of m] by (auto simp: s_def)
    from posToString_head [OF s(1), of e]
    have h: "posToString s e \<noteq> []" "isDigit (hd (posToString s e))" by auto
    show ?thesis
    proof (cases "m < 0")
      case True
      then have "numToString x = CHR ''-'' # posToString s e" by (simp add: Dec s_def)
      then show ?thesis
        using parseFloatStr_digit(2) [OF h] unsignedDecimal_posToString [OF s, of True e] True
        by (simp add: Dec s_def)
    next
      case False
      with \<open>m \<noteq> 0\<close> have "numToString x = posToString s e" by (simp add: Dec s_def)
      then show ?thesis
        using parseFloatStr_digit(1) [OF h] unsignedDecimal_posToString [OF s, of False e] False
        by (simp add: Dec s_def)
    qed
  qed
qed

lemma not_hex_prefix: "\<forall>c\<in>set a. isDigit c \<Longrightarrow> take 2 a \<noteq> ''0x'' \<and> take 2 a \<noteq> ''0X''"
proof (cases a)
  case Nil
  then show ?thesis by simp
next
  case (Cons c r)
  assume d: "\<forall>c\<in>set a. isDigit c"
  show ?thesis
  proof (cases r)
    case Nil
    with Cons show ?thesis by simp
  next
    case (Cons c' r')
    with d \<open>a = c # r\<close> have "isDigit c'" by simp
    then have "c' \<noteq> CHR ''x''" "c' \<noteq> CHR ''X''" using not_digit_chars by auto
    with Cons \<open>a = c # r\<close> show ?thesis by simp
  qed
qed

lemma unsignedInteger_digits:
  "\<forall>c\<in>set a. isDigit c \<Longrightarrow> a \<noteq> [] \<Longrightarrow> unsignedInteger neg a = mkNum neg (digitsToNat a) 0"
  using not_hex_prefix [of a] by (simp add: unsignedInteger_def takeWhile_all)

lemma small_digits:
  assumes "0 < s" and "int s * 10 ^ nat e < 10 ^ 21" and "0 \<le> e"
  shows "e + int (length (natToDigits s)) \<le> 21"
proof -
  define k where "k = length (natToDigits s)"
  have "(10::nat) ^ (k - 1) \<le> s" using length_natToDigits_lower [OF assms(1)] by (simp add: k_def)
  from pow_bound [OF this assms(2)] have "k - 1 + nat e < 21" .
  then show ?thesis using assms(3) by (simp add: k_def [symmetric])
qed

lemma parseIntStr_numToString:
  "wfNum x \<Longrightarrow> smallInteger x \<Longrightarrow> parseIntStr (numToString x) = x"
proof (cases x)
  case (Dec m e)
  assume wf: "wfNum x" and sm: "smallInteger x"
  show ?thesis
  proof (cases "m = 0")
    case True
    have "parseIntStr ''0'' = Dec 0 0" by code_simp
    with True wf Dec show ?thesis by simp
  next
    case False
    define s where "s = nat \<bar>m\<bar>"
    define ds where "ds = natToDigits s"
    have s: "0 < s" "s mod 10 \<noteq> 0"
      using False wf Dec abs_mod10 [of m] by (auto simp: s_def)
    have e: "0 \<le> e" and b: "int s * 10 ^ nat e < 10 ^ 21" using sm Dec by (simp_all add: s_def)
    have n: "e + int (length ds) \<le> 21" unfolding ds_def by (rule small_digits [OF s(1) b e])
    let ?z = "replicate (nat e) (CHR ''0'')"
    have str: "posToString s e = ds @ ?z"
      using e n by (simp add: posToString_def Let_def ds_def [symmetric])
    have all: "\<forall>c\<in>set (ds @ ?z). isDigit c"
      using natToDigits_digits by (auto simp: ds_def isDigit_zero)
    have ne: "ds @ ?z \<noteq> []" by (simp add: ds_def natToDigits_ne)
    have v: "digitsToNat (ds @ ?z) = s * 10 ^ nat e"
      by (simp add: digitsToNat_append digitsToNat_zeros digitsToNat_natToDigits ds_def)
    have u: "unsignedInteger neg (posToString s e) = Dec (if neg then - int s else int s) e" for neg
      unfolding str unsignedInteger_digits [OF all ne] v
      using mkNum_norm [OF s, of neg "nat e" 0] e by simp
    from posToString_head [OF s(1), of e]
    have h: "posToString s e \<noteq> []" "isDigit (hd (posToString s e))" by auto
    show ?thesis
    proof (cases "m < 0")
      case True
      then have "numToString x = CHR ''-'' # posToString s e" by (simp add: Dec s_def)
      then show ?thesis using parseIntStr_digit(2) [OF h] u [of True] True by (simp add: Dec s_def)
    next
      case False
      with \<open>m \<noteq> 0\<close> have "numToString x = posToString s e" by (simp add: Dec s_def)
      then show ?thesis using parseIntStr_digit(1) [OF h] u [of False] False by (simp add: Dec s_def)
    qed
  qed
qed simp_all

section \<open>Facts about the traversals\<close>

lemma valueParser_JStr: "\<exists>v. valueParser k (JStr s) = Inr v"
  by (cases k) (simp_all add: toString_def)

lemma truthyProp_guard:
  "\<not> truthyProp properties name \<Longrightarrow> truthyProp ps name \<Longrightarrow> \<exists>t. map_of ps name = Some t"
  by (auto simp: truthyProp_def dest!: weak_map_of_SomeI)

text \<open>Reading a tree never throws: the one failing branch of \<open>fromXmlProps\<close> is behind
  the guard.\<close>

lemma fromXml_total:
  "\<exists>d. fromXml t n = Inr d"
  "\<exists>qs. fromXmlProps ps ns acc = Inr qs"
  "\<exists>ds. fromXmlItems t ns = Inr ds"
proof (induction t n and ps ns acc and t ns rule: fromXml_fromXmlProps_fromXmlItems.induct)
  case (1 ps objectType "value")
  then show ?case by auto
next
  case (2 itemName itemTemplate "value")
  then show ?case by auto
next
  case (3 k "value")
  then show ?case using valueParser_JStr [of k "textContent value"] by auto
next
  case (4 ps properties)
  then show ?case by simp
next
  case (5 ps node nodes properties)
  show ?case
  proof (cases "\<not> truthyProp properties (propKey (tagName node))
                \<and> truthyProp ps (propKey (tagName node))")
    case True
    then obtain t where t: "map_of ps (propKey (tagName node)) = Some t"
      using truthyProp_guard by blast
    from 5(1) [OF refl _ t] True obtain d where d: "fromXml t node = Inr d" by auto
    from 5(2) [OF refl _ t d] True show ?thesis using t d by (auto simp: Let_def)
  next
    case False
    with 5(3) show ?thesis by (auto simp: Let_def)
  qed
next
  case (6 t)
  then show ?case by simp
next
  case (7 t element elements)
  then show ?case by auto
qed

lemma fromXmlItems_all2:
  "fromXmlItems t ns = Inr ds \<Longrightarrow> list_all2 (\<lambda>c d. fromXml t c = Inr d) ns ds"
  by (induction ns arbitrary: ds) (auto split: sum.splits)

lemma createElement_Inr:
  "createElement name = Inr el \<longleftrightarrow> xmlName name \<and> el = Element name []"
  by (auto simp: createElement_def)

text \<open>A rendered element carries the name it was asked for, and its children are the
  rendered properties (or items), one each, in order.\<close>

lemma toXml_shape:
  "toXml name d = Inr el \<Longrightarrow> \<exists>cs. el = Element name cs"
  "toXmlProps props el0 = Inr el \<Longrightarrow> el0 = Element tag cs0 \<Longrightarrow>
     \<exists>cs. el = Element tag (cs0 @ cs)
        \<and> list_all2 (\<lambda>p c. toXml (fst p) (snd p) = Inr c) props cs"
  "toXmlItems itemName items el0 = Inr el \<Longrightarrow> el0 = Element tag cs0 \<Longrightarrow>
     \<exists>cs. el = Element tag (cs0 @ cs)
        \<and> list_all2 (\<lambda>i c. toXml itemName i = Inr c) items cs"
proof (induction name d and props el0 and itemName items el0
       arbitrary: el and el tag cs0 and el tag cs0 rule: toXml_toXmlProps_toXmlItems.induct)
  case (1 name ps objectType properties)
  from 1(2) have r: "toXmlProps properties (Element name []) = Inr el"
    by (auto simp: createElement_Inr split: sum.splits)
  from 1(2) have "createElement name = Inr (Element name [])"
    by (auto simp: createElement_Inr split: sum.splits)
  from 1(1) [OF this r, of name "[]"] show ?case by auto
next
  case (2 name itemName itemTemplate items)
  from 2(2) have r: "toXmlItems itemName items (Element name []) = Inr el"
    by (auto simp: createElement_Inr split: sum.splits)
  from 2(2) have "createElement name = Inr (Element name [])"
    by (auto simp: createElement_Inr split: sum.splits)
  from 2(1) [OF this r, of name "[]"] show ?case by auto
next
  case (3 name k v)
  then show ?case by (auto simp: createElement_Inr split: sum.splits)
next
  case (4 element)
  then show ?case by simp
next
  case (5 name d properties element)
  from 5(3) obtain c where c: "toXml name d = Inr c"
    and r: "toXmlProps properties (appendChild element c) = Inr el"
    by (auto split: sum.splits)
  from 5(2) [OF c r, of tag "cs0 @ [c]"] 5(4) c show ?case by auto
next
  case (6 itemName element)
  then show ?case by simp
next
  case (7 itemName item items element)
  from 7(3) obtain c where c: "toXml itemName item = Inr c"
    and r: "toXmlItems itemName items (appendChild element c) = Inr el"
    by (auto split: sum.splits)
  from 7(2) [OF c r, of tag "cs0 @ [c]"] 7(4) c show ?case by auto
qed

lemma arrayExample_fromXml:
  "fromXml (TArray ''n'' (TValue TInteger)) arrayExample = Inr arrayExampleNode"
  by code_simp

lemma arrayExample_toXml:
  "toXml ''c'' arrayExampleNode
     = Inr (Element ''c'' [Element ''n'' [Text ''3''], Element ''n'' [Text ''5'']])"
  by code_simp

lemma assign_keys: "fst ` set (assign ps k x) = insert k (fst ` set ps)"
  by (induction ps k x rule: assign.induct) auto

lemma map_of_assign: "map_of (assign ps k x) = (map_of ps)(k \<mapsto> x)"
  by (induction ps k x rule: assign.induct) (auto simp: fun_eq_iff)

lemma assign_absent: "k \<notin> fst ` set ps \<Longrightarrow> assign ps k x = ps @ [(k, x)]"
  by (induction ps k x rule: assign.induct) auto




text \<open>Once a key is set, no later child changes it.\<close>

lemma fromXmlProps_kept:
  "fromXmlProps ps ns acc = Inr qs \<Longrightarrow> p \<in> fst ` set acc \<Longrightarrow> map_of qs p = map_of acc p"
proof (induction ns arbitrary: acc)
  case Nil
  then show ?case by simp
next
  case (Cons n ns)
  let ?k = "propKey (tagName n)"
  show ?case
  proof (cases "\<not> truthyProp acc ?k \<and> truthyProp ps ?k")
    case True
    then obtain t where t: "map_of ps ?k = Some t" using truthyProp_guard by blast
    obtain d where d: "fromXml t n = Inr d" using fromXml_total(1) by blast
    have r: "fromXmlProps ps ns (assign acc ?k d) = Inr qs"
      using Cons.prems(1) True t d by (simp add: Let_def)
    have ne: "?k \<noteq> p" using True Cons.prems(2) by (auto simp: truthyProp_def)
    have "p \<in> fst ` set (assign acc ?k d)" using Cons.prems(2) by (simp add: assign_keys)
    from Cons.IH [OF r this] ne show ?thesis by (simp add: map_of_assign)
  next
    case False
    then have "fromXmlProps ps ns acc = Inr qs" using Cons.prems(1) by (auto simp: Let_def)
    from Cons.IH [OF this Cons.prems(2)] show ?thesis .
  qed
qed

lemma fromXmlProps_first:
  "fromXmlProps ps (before @ first # after) acc = Inr qs \<Longrightarrow> map_of ps p = Some t
     \<Longrightarrow> p \<notin> set objectPrototypeNames \<Longrightarrow> p \<notin> fst ` set acc
     \<Longrightarrow> \<forall>c\<in>set before. propKey (tagName c) \<noteq> p \<Longrightarrow> propKey (tagName first) = p
     \<Longrightarrow> fromXml t first = Inr d \<Longrightarrow> map_of qs p = Some d"
proof (induction before arbitrary: acc)
  case Nil
  have g: "\<not> truthyProp acc p \<and> truthyProp ps p"
    using Nil.prems(2,3,4) by (auto simp: truthyProp_def dest: map_of_SomeD intro: rev_image_eqI)
  have r: "fromXmlProps ps after (assign acc p d) = Inr qs"
    using Nil.prems(1,2,6,7) g by (simp add: Let_def)
  have "p \<in> fst ` set (assign acc p d)" by (simp add: assign_keys)
  from fromXmlProps_kept [OF r this] show ?case by (simp add: map_of_assign)
next
  case (Cons n before)
  let ?k = "propKey (tagName n)"
  have ne: "?k \<noteq> p" using Cons.prems(5) by simp
  show ?case
  proof (cases "\<not> truthyProp acc ?k \<and> truthyProp ps ?k")
    case True
    then obtain u where u: "map_of ps ?k = Some u" using truthyProp_guard by blast
    obtain e where e: "fromXml u n = Inr e" using fromXml_total(1) by blast
    have r: "fromXmlProps ps (before @ first # after) (assign acc ?k e) = Inr qs"
      using Cons.prems(1) True u e by (simp add: Let_def)
    have "p \<notin> fst ` set (assign acc ?k e)" using Cons.prems(4) ne by (auto simp: assign_keys)
    from Cons.IH [OF r Cons.prems(2,3) this _ Cons.prems(6,7)] Cons.prems(5)
    show ?thesis by simp
  next
    case False
    then have r: "fromXmlProps ps (before @ first # after) acc = Inr qs"
      using Cons.prems(1) by (auto simp: Let_def)
    from Cons.IH [OF r Cons.prems(2,3,4) _ Cons.prems(6,7)] Cons.prems(5)
    show ?thesis by simp
  qed
qed

lemma fromXml_first_match:
  assumes "map_of ps p = Some t" and "p \<notin> set objectPrototypeNames"
    and "childNodes node = before @ first # after"
    and "\<forall>c\<in>set before. propKey (tagName c) \<noteq> p" and "propKey (tagName first) = p"
  shows "\<exists>props d. fromXml (TObject ps c) node = Inr (DObject ps c props)
           \<and> fromXml t first = Inr d \<and> map_of props p = Some d"
proof -
  obtain props where props: "fromXmlProps ps (before @ first # after) [] = Inr props"
    using fromXml_total(2) by blast
  obtain d where d: "fromXml t first = Inr d" using fromXml_total(1) by blast
  have "map_of props p = Some d"
    using fromXmlProps_first [OF props assms(1,2) _ assms(4,5) d] by simp
  then show ?thesis using props d assms(3) by simp
qed


lemma isDigit_x: "\<not> isDigit (CHR ''x'')" "\<not> isDigit (CHR ''X'')" "\<not> isDigit (CHR ''.'')"
  by (simp_all add: isDigit_def)









lemma fromJsProps_kept:
  "fromJsProps ps v acc = Inr qs \<Longrightarrow> name \<notin> fst ` set ps \<Longrightarrow> map_of qs name = map_of acc name"
proof (induction ps arbitrary: acc)
  case Nil
  then show ?case by simp
next
  case (Cons a ps)
  obtain n t where a: "a = (n, t)" by (cases a)
  from Cons.prems(1) obtain x d where "getProp v n = Inr x" "fromJs t x = Inr d"
    and r: "fromJsProps ps v (assign acc n d) = Inr qs"
    unfolding a by (auto split: sum.splits)
  from Cons.IH [OF r] Cons.prems(2) show ?case by (auto simp: a map_of_assign)
qed

lemma fromJsProps_entry:
  "fromJsProps ps v acc = Inr qs \<Longrightarrow> distinct (map fst ps) \<Longrightarrow> (name, t) \<in> set ps
     \<Longrightarrow> \<exists>x d. getProp v name = Inr x \<and> fromJs t x = Inr d \<and> map_of qs name = Some d"
proof (induction ps arbitrary: acc)
  case Nil
  then show ?case by simp
next
  case (Cons a ps)
  obtain n u where a: "a = (n, u)" by (cases a)
  from Cons.prems(1) obtain x d where x: "getProp v n = Inr x" and d: "fromJs u x = Inr d"
    and r: "fromJsProps ps v (assign acc n d) = Inr qs"
    unfolding a by (auto split: sum.splits)
  show ?case
  proof (cases "(name, t) = (n, u)")
    case True
    have "n \<notin> fst ` set ps" using Cons.prems(2) by (simp add: a)
    from fromJsProps_kept [OF r this] have "map_of qs n = Some d" by (simp add: map_of_assign)
    with True x d show ?thesis by auto
  next
    case False
    then have "(name, t) \<in> set ps" using Cons.prems(3) by (auto simp: a)
    from Cons.IH [OF r _ this] Cons.prems(2) show ?thesis by (simp add: a)
  qed
qed

lemma fromJsProps_success:
  "\<forall>(name, t)\<in>set ps. \<exists>x d. getProp v name = Inr x \<and> fromJs t x = Inr d
     \<Longrightarrow> \<exists>qs. fromJsProps ps v acc = Inr qs"
proof (induction ps arbitrary: acc)
  case Nil
  then show ?case by simp
next
  case (Cons a ps)
  obtain n u where a: "a = (n, u)" by (cases a)
  from Cons.prems obtain x d where "getProp v n = Inr x" "fromJs u x = Inr d"
    by (auto simp: a)
  moreover have "\<exists>qs. fromJsProps ps v (assign acc n d) = Inr qs"
    using Cons.IH Cons.prems by simp
  ultimately show ?case by (simp add: a)
qed


text \<open>The example of the specification, with any number of further children.\<close>

lemma first_match_duplicates:
  "\<exists>props. fromXml (TObject [(''a'', TValue TNumber)] ''Object'')
              (Element ''x'' (Element ''a'' [Text ''1''] # Element ''a'' [Text ''2''] # more))
            = Inr (DObject [(''a'', TValue TNumber)] ''Object'' props)
         \<and> map_of props ''a'' = Some (DValue TNumber (JNum (Dec 1 0)))"
proof -
  have p: "parseFloat (JStr ''1'') = Dec 1 0" by code_simp
  have n: "''a'' \<notin> set objectPrototypeNames" by (simp add: objectPrototypeNames_def)
  from fromXml_first_match [of "[(''a'', TValue TNumber)]" "''a''" "TValue TNumber"
      "Element ''x'' (Element ''a'' [Text ''1''] # Element ''a'' [Text ''2''] # more)"
      "[]" "Element ''a'' [Text ''1'']" "Element ''a'' [Text ''2''] # more" "''Object''"] n p
  show ?thesis by simp
qed

text \<open>The native round trip.\<close>

lemma parseInt_false: "parseInt (JBool False) = NaN"
  by code_simp

lemma valueParser_matching:
  "matchesWith smallInteger (TValue k) v \<Longrightarrow> valueParser k v = Inr v"
proof (cases k)
  case TBoolean
  assume "matchesWith smallInteger (TValue k) v"
  then obtain b where "v = JBool b" using TBoolean by (auto split: jsval.splits)
  then show ?thesis using TBoolean by (cases b) (simp_all add: parseInt_false)
next
  case TInteger
  assume "matchesWith smallInteger (TValue k) v"
  then obtain x where "v = JNum x" "wfNum x" "smallInteger x"
    using TInteger by (auto split: jsval.splits)
  then show ?thesis using TInteger by (simp add: parseInt_def parseIntStr_numToString)
next
  case TNumber
  assume "matchesWith smallInteger (TValue k) v"
  then obtain x where "v = JNum x" "wfNum x" using TNumber by (auto split: jsval.splits)
  then show ?thesis using TNumber by (simp add: parseFloat_def parseFloatStr_numToString)
next
  case TString
  assume "matchesWith smallInteger (TValue k) v"
  then obtain s where "v = JStr s" using TString by (auto split: jsval.splits)
  then show ?thesis using TString by (simp add: toString_def)
qed

lemma matchesProps_entry:
  "matchesProps I ps fs \<Longrightarrow> (name, t) \<in> set ps
     \<Longrightarrow> \<exists>x. map_of fs name = Some x \<and> matchesWith I t x"
  by (induction ps) (auto split: option.splits)

lemma equalProps_intro:
  "(\<And>name t. (name, t) \<in> set ps \<Longrightarrow>
      \<exists>r v. map_of fr name = Some r \<and> map_of fv name = Some v \<and> equalFields t r v)
     \<Longrightarrow> equalProps ps fr fv"
proof (induction ps)
  case Nil
  then show ?case by simp
next
  case (Cons a ps)
  obtain name t where a: "a = (name, t)" by (cases a)
  from Cons.prems [of name t] obtain r v where
    "map_of fr name = Some r" "map_of fv name = Some v" "equalFields t r v"
    by (auto simp: a)
  moreover have "equalProps ps fr fv" using Cons.IH Cons.prems by simp
  ultimately show ?case by (simp add: a)
qed

lemma fromJsProps_order:
  "fromJsProps ps v acc = Inr qs \<Longrightarrow> distinct (map fst ps)
     \<Longrightarrow> fst ` set acc \<inter> fst ` set ps = {}
     \<Longrightarrow> \<exists>new. qs = acc @ new \<and> map fst new = map fst ps"
proof (induction ps arbitrary: acc)
  case Nil
  then show ?case by simp
next
  case (Cons a ps)
  obtain name t where a: "a = (name, t)" by (cases a)
  from Cons.prems(1) obtain x d where "getProp v name = Inr x" "fromJs t x = Inr d"
    and r: "fromJsProps ps v (assign acc name d) = Inr qs"
    unfolding a by (auto split: sum.splits)
  have n: "name \<notin> fst ` set acc" using Cons.prems(3) by (auto simp: a)
  have as: "assign acc name d = acc @ [(name, d)]" by (rule assign_absent [OF n])
  have "fst ` set (assign acc name d) \<inter> fst ` set ps = {}"
    using Cons.prems(2,3) by (auto simp: as a)
  from Cons.IH [OF r _ this] Cons.prems(2) obtain new where
    "qs = assign acc name d @ new" "map fst new = map fst ps" by (auto simp: a)
  then show ?case by (auto simp: as a)
qed

lemma toJsProps_map:
  "distinct (map fst props) \<Longrightarrow> fst ` set acc \<inter> fst ` set props = {}
     \<Longrightarrow> toJsProps props acc = acc @ map (\<lambda>p. (fst p, toJs (snd p))) props"
proof (induction props arbitrary: acc)
  case Nil
  then show ?case by simp
next
  case (Cons a props)
  obtain name d where a: "a = (name, d)" by (cases a)
  have n: "name \<notin> fst ` set acc" using Cons.prems(2) by (auto simp: a)
  have as: "assign acc name (toJs d) = acc @ [(name, toJs d)]" by (rule assign_absent [OF n])
  have "fst ` set (assign acc name (toJs d)) \<inter> fst ` set props = {}"
    using Cons.prems by (auto simp: as a)
  from Cons.IH [OF _ this] Cons.prems(1) show ?case by (simp add: a as)
qed

lemma map_of_rendered:
  "map_of (map (\<lambda>p. (fst p, toJs (snd p))) props) name = map_option toJs (map_of props name)"
  by (induction props) auto

lemma fromJsProps_matching:
  assumes "\<And>name t x. (name, t) \<in> set ps \<Longrightarrow> matchesWith I t x \<Longrightarrow> \<exists>d. fromJs t x = Inr d"
    and "matchesProps I ps fs"
  shows "\<exists>qs. fromJsProps ps (JObj c fs) acc = Inr qs"
proof (rule fromJsProps_success, clarify)
  fix name t assume m: "(name, t) \<in> set ps"
  from matchesProps_entry [OF assms(2) m] obtain x where
    x: "map_of fs name = Some x" "matchesWith I t x" by blast
  from assms(1) [OF m x(2)] obtain d where "fromJs t x = Inr d" by blast
  with x show "\<exists>x d. getProp (JObj c fs) name = Inr x \<and> fromJs t x = Inr d" by simp
qed

lemma fromJsItems_matching:
  assumes "\<And>x. matchesWith I t x \<Longrightarrow> \<exists>d. fromJs t x = Inr d \<and> equalFields t (toJs d) x"
  shows "matchesItems I t xs \<Longrightarrow> \<exists>ds. fromJsItems t xs = Inr ds \<and> equalItems t (map toJs ds) xs"
proof (induction xs)
  case Nil
  then show ?case by simp
next
  case (Cons x xs)
  then obtain d where "fromJs t x = Inr d" "equalFields t (toJs d) x"
    using assms by auto
  moreover obtain ds where "fromJsItems t xs = Inr ds" "equalItems t (map toJs ds) xs"
    using Cons by auto
  ultimately show ?case by simp
qed

lemma fromJs_toJs_matching:
  "matchesWith smallInteger S V \<Longrightarrow> \<exists>d. fromJs S V = Inr d \<and> equalFields S (toJs d) V"
proof (induction S arbitrary: V)
  case (TObject ps objectType)
  from TObject.prems obtain c fs where V: "V = JObj c fs"
    and dp: "distinct (map fst ps)" and df: "distinct (map fst fs)"
    and keys: "set (map fst fs) = set (map fst ps)" and mp: "matchesProps smallInteger ps fs"
    by (auto split: jsval.splits)
  have IH: "\<exists>d. fromJs t x = Inr d \<and> equalFields t (toJs d) x"
    if "(name, t) \<in> set ps" "matchesWith smallInteger t x" for name t x
    using TObject.IH [of "(name, t)" t x] that by auto
  obtain props where props: "fromJsProps ps (JObj c fs) [] = Inr props"
    using fromJsProps_matching [of ps smallInteger fs c "[]"] IH mp by blast
  from fromJsProps_order [OF props dp] have order: "map fst props = map fst ps" by auto
  then have dprops: "distinct (map fst props)" using dp by simp
  have render: "toJsProps props [] = map (\<lambda>p. (fst p, toJs (snd p))) props"
    using toJsProps_map [OF dprops, of "[]"] by simp
  have rkeys: "map fst (toJsProps props []) = map fst ps"
    unfolding render using order by (simp add: comp_def)
  have "equalProps ps (toJsProps props []) fs"
  proof (rule equalProps_intro)
    fix name t assume m: "(name, t) \<in> set ps"
    from matchesProps_entry [OF mp m] obtain x where
      x: "map_of fs name = Some x" "matchesWith smallInteger t x" by blast
    from fromJsProps_entry [OF props dp m] x(1) obtain d where
      d: "fromJs t x = Inr d" "map_of props name = Some d" by auto
    from IH [OF m x(2)] d(1) have "equalFields t (toJs d) x" by auto
    then show "\<exists>r v. map_of (toJsProps props []) name = Some r \<and> map_of fs name = Some v
                \<and> equalFields t r v"
      using x(1) d(2) by (simp add: render map_of_rendered)
  qed
  moreover have "fst ` set (toJsProps props []) = fst ` set ps"
    using rkeys by (metis set_map)
  ultimately show ?case using props V dp keys rkeys by simp
next
  case (TArray itemName itemTemplate)
  from TArray.prems obtain xs where V: "V = JArr xs" and mi: "matchesItems smallInteger itemTemplate xs"
    by (auto split: jsval.splits)
  from fromJsItems_matching [of smallInteger itemTemplate xs, OF TArray.IH mi]
  obtain ds where "fromJsItems itemTemplate xs = Inr ds" "equalItems itemTemplate (map toJs ds) xs"
    by blast
  then show ?case by (simp add: V)
next
  case (TValue k)
  then show ?case by (simp add: valueParser_matching)
qed

text \<open>Rendering to a tree and reading it back.\<close>

lemma valueParser_text:
  "matchesWith smallInteger (TValue k) v \<Longrightarrow> valueParser k (JStr (toStr v)) = Inr v"
proof (cases k)
  case TBoolean
  assume "matchesWith smallInteger (TValue k) v"
  then obtain b where v: "v = JBool b" using TBoolean by (auto split: jsval.splits)
  have "parseInt (JStr ''false'') = NaN" by code_simp
  then show ?thesis using TBoolean v by (cases b) simp_all
next
  case TInteger
  assume "matchesWith smallInteger (TValue k) v"
  then obtain x where "v = JNum x" "wfNum x" "smallInteger x"
    using TInteger by (auto split: jsval.splits)
  then show ?thesis using TInteger by (simp add: parseInt_def parseIntStr_numToString)
next
  case TNumber
  assume "matchesWith smallInteger (TValue k) v"
  then obtain x where "v = JNum x" "wfNum x" using TNumber by (auto split: jsval.splits)
  then show ?thesis using TNumber by (simp add: parseFloat_def parseFloatStr_numToString)
next
  case TString
  assume "matchesWith smallInteger (TValue k) v"
  then obtain s where "v = JStr s" using TString by (auto split: jsval.splits)
  then show ?thesis using TString by (simp add: toString_def)
qed

lemma toString_matching:
  "matchesWith smallInteger (TValue k) v \<Longrightarrow> toString v = Inr (toStr v)"
  by (cases k) (auto simp: toString_def split: jsval.splits)

lemma textContent_set: "textContent (setTextContent (Element t cs) s) = s"
  by simp

lemma toXmlItems_rendered:
  assumes "\<And>d. d \<in> set ds \<Longrightarrow> \<exists>el. toXml n d = Inr el \<and> fromXml t el = Inr d"
  shows "\<exists>els. toXmlItems n ds (Element name cs0) = Inr (Element name (cs0 @ els))
           \<and> list_all2 (\<lambda>d el. toXml n d = Inr el \<and> fromXml t el = Inr d) ds els"
  using assms
proof (induction ds arbitrary: cs0)
  case Nil
  then show ?case by simp
next
  case (Cons d ds)
  from Cons.prems [of d] obtain el where el: "toXml n d = Inr el" "fromXml t el = Inr d" by auto
  from Cons.IH [of "cs0 @ [el]"] Cons.prems obtain els where
    "toXmlItems n ds (Element name (cs0 @ [el])) = Inr (Element name ((cs0 @ [el]) @ els))"
    "list_all2 (\<lambda>d el. toXml n d = Inr el \<and> fromXml t el = Inr d) ds els" by auto
  with el show ?case by (intro exI [of _ "el # els"]) simp
qed

lemma fromXmlItems_rendered:
  "list_all2 (\<lambda>d el. toXml n d = Inr el \<and> fromXml t el = Inr d) ds els
     \<Longrightarrow> fromXmlItems t els = Inr ds \<and> filter (\<lambda>c. tagName c = Some n) els = els"
proof (induction rule: list_all2_induct)
  case Nil
  then show ?case by simp
next
  case (Cons d ds el els)
  from toXml_shape(1) [of n d el] Cons(1) have "tagName el = Some n" by auto
  with Cons show ?case by simp
qed

lemma toXmlProps_rendered:
  assumes "\<And>k d. (k, d) \<in> set props \<Longrightarrow>
             \<exists>el t. toXml k d = Inr el \<and> map_of ps k = Some t \<and> fromXml t el = Inr d"
  shows "\<exists>els. toXmlProps props (Element name cs0) = Inr (Element name (cs0 @ els))
           \<and> list_all2 (\<lambda>p el. tagName el = Some (fst p)
                \<and> (\<exists>t. map_of ps (fst p) = Some t \<and> fromXml t el = Inr (snd p))) props els"
  using assms
proof (induction props arbitrary: cs0)
  case Nil
  then show ?case by simp
next
  case (Cons a props)
  obtain k d where a: "a = (k, d)" by (cases a)
  from Cons.prems [of k d] obtain el t where
    el: "toXml k d = Inr el" "map_of ps k = Some t" "fromXml t el = Inr d" by (auto simp: a)
  have tag: "tagName el = Some k" using toXml_shape(1) [OF el(1)] by auto
  from Cons.IH [of "cs0 @ [el]"] Cons.prems obtain els where
    "toXmlProps props (Element name (cs0 @ [el])) = Inr (Element name ((cs0 @ [el]) @ els))"
    "list_all2 (\<lambda>p el. tagName el = Some (fst p)
        \<and> (\<exists>t. map_of ps (fst p) = Some t \<and> fromXml t el = Inr (snd p))) props els" by auto
  with el tag show ?case by (intro exI [of _ "el # els"]) (simp add: a)
qed

lemma fromXmlProps_rendered:
  "list_all2 (\<lambda>p el. tagName el = Some (fst p)
      \<and> (\<exists>t. map_of ps (fst p) = Some t \<and> fromXml t el = Inr (snd p))) props els
     \<Longrightarrow> distinct (map fst props) \<Longrightarrow> fst ` set acc \<inter> fst ` set props = {}
     \<Longrightarrow> \<forall>p\<in>set props. fst p \<notin> set objectPrototypeNames
     \<Longrightarrow> fromXmlProps ps els acc = Inr (acc @ props)"
proof (induction arbitrary: acc rule: list_all2_induct)
  case Nil
  then show ?case by simp
next
  case (Cons p props el els)
  obtain k d where p: "p = (k, d)" by (cases p)
  from Cons(1) obtain t where tag: "tagName el = Some k"
    and t: "map_of ps k = Some t" and d: "fromXml t el = Inr d" by (auto simp: p)
  have k: "k \<notin> fst ` set acc" "k \<notin> set objectPrototypeNames"
    using Cons.prems by (auto simp: p)
  have g: "\<not> truthyProp acc k \<and> truthyProp ps k"
    using k t by (auto simp: truthyProp_def dest: map_of_SomeD intro: rev_image_eqI)
  have as: "assign acc k d = acc @ [(k, d)]" by (rule assign_absent [OF k(1)])
  have "fst ` set (acc @ [(k, d)]) \<inter> fst ` set props = {}"
    using Cons.prems(1,2) by (auto simp: p)
  from Cons.IH [OF _ this] Cons.prems(1,3)
  have "fromXmlProps ps els (acc @ [(k, d)]) = Inr ((acc @ [(k, d)]) @ props)" by simp
  then show ?case using g t d tag by (simp add: as p)
qed

lemma tagsOkProps_entry:
  "tagsOkProps ps \<Longrightarrow> (name, t) \<in> set ps
     \<Longrightarrow> xmlName name \<and> name \<notin> set objectPrototypeNames \<and> tagsOk t"
  by (induction ps) auto

lemma map_of_entry: "distinct (map fst ps) \<Longrightarrow> (k, t) \<in> set ps \<Longrightarrow> map_of ps k = Some t"
  by simp

text \<open>The tree round trip: rendering what \<open>fromJs\<close> built and reading the element back
  gives the same intermediate object.\<close>

lemma toXml_fromXml_matching:
  "matchesWith smallInteger S V \<Longrightarrow> tagsOk S \<Longrightarrow> xmlName name \<Longrightarrow> fromJs S V = Inr d
     \<Longrightarrow> \<exists>el. toXml name d = Inr el \<and> fromXml S el = Inr d"
proof (induction S arbitrary: V name d)
  case (TObject ps objectType)
  from TObject.prems(1) obtain c fs where V: "V = JObj c fs"
    and dp: "distinct (map fst ps)" and mp: "matchesProps smallInteger ps fs"
    by (auto split: jsval.splits)
  from TObject.prems(4) obtain props where props: "fromJsProps ps (JObj c fs) [] = Inr props"
    and d: "d = DObject ps objectType props" by (auto simp: V split: sum.splits)
  from fromJsProps_order [OF props dp] have order: "map fst props = map fst ps" by auto
  then have dprops: "distinct (map fst props)" using dp by simp
  have each: "\<exists>el t. toXml k dk = Inr el \<and> map_of ps k = Some t \<and> fromXml t el = Inr dk"
    if m: "(k, dk) \<in> set props" for k dk
  proof -
    have "k \<in> set (map fst ps)" using m order by (metis fst_conv image_eqI set_map)
    then obtain t where kt: "(k, t) \<in> set ps" by auto
    from fromJsProps_entry [OF props dp kt] obtain x d' where
      x: "getProp (JObj c fs) k = Inr x" "fromJs t x = Inr d'" "map_of props k = Some d'" by blast
    have "map_of props k = Some dk" using dprops m by simp
    with x have dk: "fromJs t x = Inr dk" by simp
    from matchesProps_entry [OF mp kt] x(1) have mx: "matchesWith smallInteger t x" by auto
    from tagsOkProps_entry [OF _ kt] TObject.prems(2) have ok: "xmlName k" "tagsOk t" by auto
    from TObject.IH [of "(k, t)" t x k dk] kt mx ok dk
    obtain el where "toXml k dk = Inr el" "fromXml t el = Inr dk" by auto
    with map_of_entry [OF dp kt] show ?thesis by blast
  qed
  from toXmlProps_rendered [of props ps name "[]", OF each] obtain els where
    els: "toXmlProps props (Element name []) = Inr (Element name els)"
    and all: "list_all2 (\<lambda>p el. tagName el = Some (fst p)
                \<and> (\<exists>t. map_of ps (fst p) = Some t \<and> fromXml t el = Inr (snd p))) props els"
    by auto
  have ninh: "\<forall>p\<in>set props. fst p \<notin> set objectPrototypeNames"
  proof
    fix p assume "p \<in> set props"
    then have "fst p \<in> set (map fst ps)" using order by (metis image_eqI set_map)
    then obtain t where "(fst p, t) \<in> set ps" by auto
    from tagsOkProps_entry [OF _ this] TObject.prems(2)
    show "fst p \<notin> set objectPrototypeNames" by auto
  qed
  from fromXmlProps_rendered [OF all dprops _ ninh, of "[]"]
  have "fromXmlProps ps els [] = Inr props" by simp
  then show ?case using els TObject.prems(3) by (simp add: d createElement_def)
next
  case (TArray itemName itemTemplate)
  from TArray.prems(1) obtain xs where V: "V = JArr xs"
    and mi: "matchesItems smallInteger itemTemplate xs" by (auto split: jsval.splits)
  from TArray.prems(4) obtain ds where ds: "fromJsItems itemTemplate xs = Inr ds"
    and d: "d = DArray itemName itemTemplate ds" by (auto simp: V split: sum.splits)
  have ok: "xmlName itemName" "tagsOk itemTemplate" using TArray.prems(2) by auto
  have each: "\<exists>el. toXml itemName di = Inr el \<and> fromXml itemTemplate el = Inr di"
    if "di \<in> set ds" for di
    using ds mi that
  proof (induction xs arbitrary: ds)
    case Nil
    then show ?case by simp
  next
    case (Cons x xs)
    from Cons.prems(1) obtain d0 ds0 where d0: "fromJs itemTemplate x = Inr d0"
      and ds0: "fromJsItems itemTemplate xs = Inr ds0" and e: "ds = d0 # ds0"
      by (auto split: sum.splits)
    show ?case
    proof (cases "di = d0")
      case True
      from TArray.IH [of x itemName d0] Cons.prems(2) ok d0 True show ?thesis by auto
    next
      case False
      with Cons.prems(3) e have "di \<in> set ds0" by simp
      from Cons.IH [OF ds0 _ this] Cons.prems(2) show ?thesis by simp
    qed
  qed
  from toXmlItems_rendered [of ds itemName itemTemplate name "[]", OF each] obtain els where
    els: "toXmlItems itemName ds (Element name []) = Inr (Element name els)"
    and all: "list_all2 (\<lambda>d el. toXml itemName d = Inr el \<and> fromXml itemTemplate el = Inr d) ds els"
    by auto
  from fromXmlItems_rendered [OF all] els TArray.prems(3)
  show ?case by (simp add: d createElement_def)
next
  case (TValue k)
  from TValue.prems(1,4) have d: "d = DValue k V" by (auto simp: valueParser_matching)
  have "toXml name d = Inr (setTextContent (Element name []) (toStr V))"
    using TValue.prems(1,3) by (simp add: d createElement_def toString_matching)
  moreover have "fromXml (TValue k) (setTextContent (Element name []) (toStr V)) = Inr d"
    using valueParser_text [OF TValue.prems(1)]
    by (simp only: fromXml.simps textContent_set d) simp
  ultimately show ?case by blast
qed

text \<open>The example of the README, evaluated.\<close>

lemma example_fromJs: "fromJs exampleTemplate exampleValue = Inr exampleNode"
  by code_simp

lemma example_toXml: "toXml ''root'' exampleNode = Inr exampleTree"
  by code_simp

lemma example_text:
  "serializeXml exampleTree
   = ''<root><a>15</a><b>true</b><c><number>3</number><number>5</number></c></root>''"
  by code_simp

section \<open>Facts about rendering in a store\<close>

lemma shiftVal_shiftVal: "shiftVal n (shiftVal m v) = shiftVal (m + n) v"
  by (cases v) simp_all

lemma shiftCell_shiftCell: "shiftCell n (shiftCell m c) = shiftCell (m + n) c"
  by (cases c) (simp_all add: shiftVal_shiftVal comp_def add.assoc)

lemma shiftVal_0: "shiftVal 0 v = v"
  by (cases v) simp_all

lemma shiftCell_0: "shiftCell 0 c = c"
  by (cases c) (simp_all add: shiftVal_0 map_idI)

lemma map_shiftCell_0: "map (shiftCell 0) r = r"
  by (simp add: shiftCell_0 map_idI)

lemma assign_map:
  "map (\<lambda>f. (fst f, g (snd f))) (assign fs k v) = assign (map (\<lambda>f. (fst f, g (snd f))) fs) k (g v)"
  by (induction fs k v rule: assign.induct) auto

lemma setProp_length: "length (setProp h a name v) = length h"
  by (auto simp: setProp_def split: cell.splits)

lemma pushItem_length: "length (pushItem h a v) = length h"
  by (auto simp: pushItem_def split: cell.splits)

lemma appendChildH_length: "length (appendChildH h a c) = length h"
  by (auto simp: appendChildH_def split: cell.splits)

text \<open>Writing to the first cell of a block commutes with moving the block behind \<open>b\<close>.\<close>

lemma setProp_moved:
  "r \<noteq> [] \<Longrightarrow> setProp (b @ map (shiftCell (length b)) r) (length b) name (shiftVal (length b) v)
     = b @ map (shiftCell (length b)) (setProp r 0 name v)"
  by (cases r; cases "hd r")
     (simp_all add: setProp_def nth_append list_update_append assign_map)

lemma pushItem_moved:
  "r \<noteq> [] \<Longrightarrow> pushItem (b @ map (shiftCell (length b)) r) (length b) (shiftVal (length b) v)
     = b @ map (shiftCell (length b)) (pushItem r 0 v)"
  by (cases r; cases "hd r")
     (simp_all add: pushItem_def nth_append list_update_append)

lemma appendChildH_moved:
  "r \<noteq> [] \<Longrightarrow> appendChildH (b @ map (shiftCell (length b)) r) (length b) (c + length b)
     = b @ map (shiftCell (length b)) (appendChildH r 0 c)"
  by (cases r; cases "hd r")
     (simp_all add: appendChildH_def nth_append list_update_append)

lemma toJsPropsH_moved:
  assumes "\<And>name d h. (name, d) \<in> set props \<Longrightarrow>
             toJsH d h = (shiftVal (length h) (fst (toJsH d [])),
                          h @ map (shiftCell (length h)) (snd (toJsH d [])))"
  shows "r \<noteq> [] \<Longrightarrow> toJsPropsH props (length b) (b @ map (shiftCell (length b)) r)
           = b @ map (shiftCell (length b)) (toJsPropsH props 0 r)"
  using assms
proof (induction props arbitrary: r)
  case Nil
  then show ?case by simp
next
  case (Cons p props)
  obtain name d where p: "p = (name, d)" by (cases p)
  define v0 where "v0 = fst (toJsH d [])"
  define n0 where "n0 = snd (toJsH d [])"
  have E: "toJsH d h = (shiftVal (length h) v0, h @ map (shiftCell (length h)) n0)" for h
    using Cons.prems(2) [of name d h] by (simp add: p v0_def n0_def)
  let ?r' = "r @ map (shiftCell (length r)) n0"
  let ?v' = "shiftVal (length r) v0"
  have 1: "toJsH d r = (?v', ?r')" by (rule E)
  have 2: "toJsH d (b @ map (shiftCell (length b)) r)
           = (shiftVal (length b) ?v', b @ map (shiftCell (length b)) ?r')"
    by (simp add: E shiftVal_shiftVal shiftCell_shiftCell comp_def add.commute)
  have prem: "toJsH d' h = (shiftVal (length h) (fst (toJsH d' [])),
                          h @ map (shiftCell (length h)) (snd (toJsH d' [])))"
    if "(name', d') \<in> set props" for name' d' h
    using Cons.prems(2) [of name' d' h] that by simp
  have ne: "setProp ?r' 0 name ?v' \<noteq> []"
    using Cons.prems(1) setProp_length [of ?r' 0 name ?v'] by (metis append_is_Nil_conv length_0_conv)
  have "toJsPropsH (p # props) (length b) (b @ map (shiftCell (length b)) r)
        = toJsPropsH props (length b)
            (setProp (b @ map (shiftCell (length b)) ?r') (length b) name (shiftVal (length b) ?v'))"
    by (simp only: p toJsPropsH.simps 2 prod.case)
  also have "\<dots> = toJsPropsH props (length b)
                     (b @ map (shiftCell (length b)) (setProp ?r' 0 name ?v'))"
    using Cons.prems(1) by (subst setProp_moved) simp_all
  also have "\<dots> = b @ map (shiftCell (length b)) (toJsPropsH props 0 (setProp ?r' 0 name ?v'))"
    by (rule Cons.IH [OF ne prem])
  also have "toJsPropsH props 0 (setProp ?r' 0 name ?v') = toJsPropsH (p # props) 0 r"
    by (simp only: p toJsPropsH.simps 1 prod.case)
  finally show ?case .
qed

lemma toJsItemsH_moved:
  assumes "\<And>d h. d \<in> set items \<Longrightarrow>
             toJsH d h = (shiftVal (length h) (fst (toJsH d [])),
                          h @ map (shiftCell (length h)) (snd (toJsH d [])))"
  shows "r \<noteq> [] \<Longrightarrow> toJsItemsH items (length b) (b @ map (shiftCell (length b)) r)
           = b @ map (shiftCell (length b)) (toJsItemsH items 0 r)"
  using assms
proof (induction items arbitrary: r)
  case Nil
  then show ?case by simp
next
  case (Cons d items)
  define v0 where "v0 = fst (toJsH d [])"
  define n0 where "n0 = snd (toJsH d [])"
  have E: "toJsH d h = (shiftVal (length h) v0, h @ map (shiftCell (length h)) n0)" for h
    using Cons.prems(2) [of d h] by (simp add: v0_def n0_def)
  let ?r' = "r @ map (shiftCell (length r)) n0"
  let ?v' = "shiftVal (length r) v0"
  have 1: "toJsH d r = (?v', ?r')" by (rule E)
  have 2: "toJsH d (b @ map (shiftCell (length b)) r)
           = (shiftVal (length b) ?v', b @ map (shiftCell (length b)) ?r')"
    by (simp add: E shiftVal_shiftVal shiftCell_shiftCell comp_def add.commute)
  have prem: "toJsH d' h = (shiftVal (length h) (fst (toJsH d' [])),
                          h @ map (shiftCell (length h)) (snd (toJsH d' [])))"
    if "d' \<in> set items" for d' h
    using Cons.prems(2) [of d' h] that by simp
  have ne: "pushItem ?r' 0 ?v' \<noteq> []"
    using Cons.prems(1) pushItem_length [of ?r' 0 ?v'] by (metis append_is_Nil_conv length_0_conv)
  have "toJsItemsH (d # items) (length b) (b @ map (shiftCell (length b)) r)
        = toJsItemsH items (length b)
            (pushItem (b @ map (shiftCell (length b)) ?r') (length b) (shiftVal (length b) ?v'))"
    by (simp only: toJsItemsH.simps 2 prod.case)
  also have "\<dots> = toJsItemsH items (length b)
                     (b @ map (shiftCell (length b)) (pushItem ?r' 0 ?v'))"
    using Cons.prems(1) by (subst pushItem_moved) simp_all
  also have "\<dots> = b @ map (shiftCell (length b)) (toJsItemsH items 0 (pushItem ?r' 0 ?v'))"
    by (rule Cons.IH [OF ne prem])
  also have "toJsItemsH items 0 (pushItem ?r' 0 ?v') = toJsItemsH (d # items) 0 r"
    by (simp only: toJsItemsH.simps 1 prod.case)
  finally show ?case .
qed

text \<open>Rendering into a store is rendering into the empty store, moved behind the cells
  that were there.\<close>

lemma toJsH_moved:
  "toJsH d h = (shiftVal (length h) (fst (toJsH d [])),
                h @ map (shiftCell (length h)) (snd (toJsH d [])))"
proof (induction d arbitrary: h)
  case (DObject ps objectType properties)
  have IH: "toJsH d h = (shiftVal (length h) (fst (toJsH d [])),
                         h @ map (shiftCell (length h)) (snd (toJsH d [])))"
    if "(name, d) \<in> set properties" for name d h
    using DObject [of "(name, d)" d h] that by simp
  from toJsPropsH_moved [of properties "[CObject objectType []]" h, OF IH]
  show ?case by simp
next
  case (DArray itemName itemTemplate items)
  from toJsItemsH_moved [of items "[CArray []]" h, OF DArray]
  show ?case by simp
next
  case (DValue k v)
  then show ?case by simp
qed

lemma closedBlock_iff:
  "closedBlock R \<longleftrightarrow> (\<forall>c\<in>set R. \<forall>a\<in>set (cellRefs c). a < length R)"
  by (simp add: closedBlock_def list_all_iff)

lemma valRefs_shift: "set (valRefs (shiftVal n v)) = (\<lambda>a. a + n) ` set (valRefs v)"
  by (cases v) simp_all

lemma cellRefs_shift: "set (cellRefs (shiftCell n c)) = (\<lambda>a. a + n) ` set (cellRefs c)"
  by (cases c) (auto simp: valRefs_shift)

lemma closedBlock_append:
  assumes "closedBlock r" and "closedBlock n0"
  shows "closedBlock (r @ map (shiftCell (length r)) n0)"
  unfolding closedBlock_iff
proof (intro ballI)
  fix c a assume c: "c \<in> set (r @ map (shiftCell (length r)) n0)" and a: "a \<in> set (cellRefs c)"
  from c consider (old) "c \<in> set r" | (new) c0 where "c0 \<in> set n0" "c = shiftCell (length r) c0"
    by auto
  then show "a < length (r @ map (shiftCell (length r)) n0)"
  proof cases
    case old
    with assms(1) a have "a < length r" by (auto simp: closedBlock_iff)
    then show ?thesis by simp
  next
    case new
    with a obtain a0 where "a0 \<in> set (cellRefs c0)" "a = a0 + length r"
      by (auto simp: cellRefs_shift)
    with new assms(2) show ?thesis by (auto simp: closedBlock_iff)
  qed
qed

lemma assign_refs:
  "set (concat (map (\<lambda>f. valRefs (snd f)) (assign fs k v)))
     \<subseteq> set (concat (map (\<lambda>f. valRefs (snd f)) fs)) \<union> set (valRefs v)"
  by (induction fs k v rule: assign.induct) auto

lemma closedBlock_update:
  assumes "closedBlock h" and "\<forall>a\<in>set (cellRefs c). a < length h"
  shows "closedBlock (h[i := c])"
  unfolding closedBlock_iff
proof (intro ballI)
  fix c' a assume "c' \<in> set (h[i := c])" and a: "a \<in> set (cellRefs c')"
  then have "c' = c \<or> c' \<in> set h" using set_update_subset_insert [of h i c] by auto
  with assms a show "a < length (h[i := c])" by (auto simp: closedBlock_iff)
qed

lemma closedBlock_setProp:
  assumes "closedBlock h" and "\<forall>a\<in>set (valRefs v). a < length h"
  shows "closedBlock (setProp h i name v)"
proof (cases "i < length h")
  case True
  show ?thesis
  proof (cases "h ! i")
    case (CObject c fs)
    have old: "\<forall>a\<in>set (cellRefs (CObject c fs)). a < length h"
      using assms(1) True CObject by (metis closedBlock_iff nth_mem)
    have "\<forall>a\<in>set (cellRefs (CObject c (assign fs name v))). a < length h"
      using old assms(2) assign_refs [of fs name v] by auto
    from closedBlock_update [OF assms(1) this] True CObject show ?thesis
      by (simp add: setProp_def)
  qed (use assms(1) True in \<open>simp_all add: setProp_def\<close>)
qed (use assms(1) in \<open>simp add: setProp_def\<close>)

lemma closedBlock_pushItem:
  assumes "closedBlock h" and "\<forall>a\<in>set (valRefs v). a < length h"
  shows "closedBlock (pushItem h i v)"
proof (cases "i < length h")
  case True
  show ?thesis
  proof (cases "h ! i")
    case (CArray vs)
    have old: "\<forall>a\<in>set (cellRefs (CArray vs)). a < length h"
      using assms(1) True CArray by (metis closedBlock_iff nth_mem)
    have "\<forall>a\<in>set (cellRefs (CArray (vs @ [v]))). a < length h"
      using old assms(2) by auto
    from closedBlock_update [OF assms(1) this] True CArray show ?thesis
      by (simp add: pushItem_def)
  qed (use assms(1) True in \<open>simp_all add: pushItem_def\<close>)
qed (use assms(1) in \<open>simp add: pushItem_def\<close>)

lemma closedBlock_appendChildH:
  assumes "closedBlock h" and "c < length h"
  shows "closedBlock (appendChildH h i c)"
proof (cases "i < length h")
  case True
  show ?thesis
  proof (cases "h ! i")
    case (CElement t cs)
    have old: "\<forall>a\<in>set (cellRefs (CElement t cs)). a < length h"
      using assms(1) True CElement by (metis closedBlock_iff nth_mem)
    have "\<forall>a\<in>set (cellRefs (CElement t (cs @ [c]))). a < length h"
      using old assms(2) by auto
    from closedBlock_update [OF assms(1) this] True CElement show ?thesis
      by (simp add: appendChildH_def)
  qed (use assms(1) True in \<open>simp_all add: appendChildH_def\<close>)
qed (use assms(1) in \<open>simp add: appendChildH_def\<close>)

lemma toJsPropsH_closed:
  assumes "\<And>name d. (name, d) \<in> set props \<Longrightarrow>
             closedBlock (snd (toJsH d []))
             \<and> (\<forall>a\<in>set (valRefs (fst (toJsH d []))). a < length (snd (toJsH d [])))"
  shows "closedBlock r \<Longrightarrow> closedBlock (toJsPropsH props i r) \<and> length r \<le> length (toJsPropsH props i r)"
  using assms
proof (induction props arbitrary: r)
  case Nil
  then show ?case by simp
next
  case (Cons p props)
  obtain name d where p: "p = (name, d)" by (cases p)
  define v0 where "v0 = fst (toJsH d [])"
  define n0 where "n0 = snd (toJsH d [])"
  have c0: "closedBlock n0" "\<forall>a\<in>set (valRefs v0). a < length n0"
    using Cons.prems(2) [of name d] by (simp_all add: p v0_def n0_def)
  let ?r' = "r @ map (shiftCell (length r)) n0"
  let ?v' = "shiftVal (length r) v0"
  have 1: "toJsH d r = (?v', ?r')" using toJsH_moved [of d r] by (simp add: v0_def n0_def)
  have cr: "closedBlock ?r'" by (rule closedBlock_append [OF Cons.prems(1) c0(1)])
  have cv: "\<forall>a\<in>set (valRefs ?v'). a < length ?r'" using c0(2) by (auto simp: valRefs_shift)
  have cs: "closedBlock (setProp ?r' i name ?v')" by (rule closedBlock_setProp [OF cr cv])
  have prem: "closedBlock (snd (toJsH d' []))
             \<and> (\<forall>a\<in>set (valRefs (fst (toJsH d' []))). a < length (snd (toJsH d' [])))"
    if "(name', d') \<in> set props" for name' d'
    using Cons.prems(2) [of name' d'] that by simp
  from Cons.IH [OF cs prem]
  have "closedBlock (toJsPropsH props i (setProp ?r' i name ?v'))"
    "length (setProp ?r' i name ?v') \<le> length (toJsPropsH props i (setProp ?r' i name ?v'))"
    by auto
  then show ?case by (simp add: p 1 setProp_length)
qed

lemma toJsItemsH_closed:
  assumes "\<And>d. d \<in> set items \<Longrightarrow>
             closedBlock (snd (toJsH d []))
             \<and> (\<forall>a\<in>set (valRefs (fst (toJsH d []))). a < length (snd (toJsH d [])))"
  shows "closedBlock r \<Longrightarrow> closedBlock (toJsItemsH items i r) \<and> length r \<le> length (toJsItemsH items i r)"
  using assms
proof (induction items arbitrary: r)
  case Nil
  then show ?case by simp
next
  case (Cons d items)
  define v0 where "v0 = fst (toJsH d [])"
  define n0 where "n0 = snd (toJsH d [])"
  have c0: "closedBlock n0" "\<forall>a\<in>set (valRefs v0). a < length n0"
    using Cons.prems(2) [of d] by (simp_all add: v0_def n0_def)
  let ?r' = "r @ map (shiftCell (length r)) n0"
  let ?v' = "shiftVal (length r) v0"
  have 1: "toJsH d r = (?v', ?r')" using toJsH_moved [of d r] by (simp add: v0_def n0_def)
  have cr: "closedBlock ?r'" by (rule closedBlock_append [OF Cons.prems(1) c0(1)])
  have cv: "\<forall>a\<in>set (valRefs ?v'). a < length ?r'" using c0(2) by (auto simp: valRefs_shift)
  have cs: "closedBlock (pushItem ?r' i ?v')" by (rule closedBlock_pushItem [OF cr cv])
  have prem: "closedBlock (snd (toJsH d' []))
             \<and> (\<forall>a\<in>set (valRefs (fst (toJsH d' []))). a < length (snd (toJsH d' [])))"
    if "d' \<in> set items" for d'
    using Cons.prems(2) [of d'] that by simp
  from Cons.IH [OF cs prem]
  have "closedBlock (toJsItemsH items i (pushItem ?r' i ?v'))"
    "length (pushItem ?r' i ?v') \<le> length (toJsItemsH items i (pushItem ?r' i ?v'))"
    by auto
  then show ?case by (simp add: 1 pushItem_length)
qed

text \<open>What \<open>toJsH\<close> adds to the empty store is a closed block, and the result points into
  it.\<close>

lemma toJsH_closed:
  "closedBlock (snd (toJsH d []))
   \<and> (\<forall>a\<in>set (valRefs (fst (toJsH d []))). a < length (snd (toJsH d [])))"
proof (induction d)
  case (DObject ps objectType properties)
  have IH: "closedBlock (snd (toJsH d []))
             \<and> (\<forall>a\<in>set (valRefs (fst (toJsH d []))). a < length (snd (toJsH d [])))"
    if "(name, d) \<in> set properties" for name d
    using DObject [of "(name, d)" d] that by simp
  have "closedBlock [CObject objectType []]" by (simp add: closedBlock_def)
  from toJsPropsH_closed [of properties "[CObject objectType []]" 0, OF IH this]
  show ?case by auto
next
  case (DArray itemName itemTemplate items)
  have "closedBlock [CArray []]" by (simp add: closedBlock_def)
  from toJsItemsH_closed [of items "[CArray []]" 0, OF DArray this]
  show ?case by auto
next
  case (DValue k v)
  then show ?case by (simp add: closedBlock_def)
qed

lemma toXmlPropsH_moved:
  assumes "\<And>name d h. (name, d) \<in> set props \<Longrightarrow>
             toXmlH name d h =
               (case toXmlH name d [] of
                  Inl e \<Rightarrow> Inl e
                | Inr (a, n0) \<Rightarrow> Inr (a + length h, h @ map (shiftCell (length h)) n0))"
  shows "r \<noteq> [] \<Longrightarrow> toXmlPropsH props (length b) (b @ map (shiftCell (length b)) r)
           = (case toXmlPropsH props 0 r of
                Inl e \<Rightarrow> Inl e
              | Inr r' \<Rightarrow> Inr (b @ map (shiftCell (length b)) r'))"
  using assms
proof (induction props arbitrary: r)
  case Nil
  then show ?case by simp
next
  case (Cons p props)
  obtain name d where p: "p = (name, d)" by (cases p)
  have E: "toXmlH name d h =
               (case toXmlH name d [] of
                  Inl e \<Rightarrow> Inl e
                | Inr (a, n0) \<Rightarrow> Inr (a + length h, h @ map (shiftCell (length h)) n0))" for h
    using Cons.prems(2) [of name d h] by (simp add: p)
  have prem: "toXmlH name' d' h =
               (case toXmlH name' d' [] of
                  Inl e \<Rightarrow> Inl e
                | Inr (a, n0) \<Rightarrow> Inr (a + length h, h @ map (shiftCell (length h)) n0))"
    if "(name', d') \<in> set props" for name' d' h
    using Cons.prems(2) [of name' d' h] that by simp
  show ?case
  proof (cases "toXmlH name d []")
    case (Inl e)
    then show ?thesis using E [of r] E [of "b @ map (shiftCell (length b)) r"] by (simp add: p)
  next
    case (Inr an)
    obtain a0 n0 where an: "an = (a0, n0)" by (cases an)
    let ?r' = "r @ map (shiftCell (length r)) n0"
    have 1: "toXmlH name d r = Inr (a0 + length r, ?r')" using E [of r] Inr an by simp
    have 2: "toXmlH name d (b @ map (shiftCell (length b)) r)
             = Inr ((a0 + length r) + length b, b @ map (shiftCell (length b)) ?r')"
      using E [of "b @ map (shiftCell (length b)) r"] Inr an
      by (simp add: shiftCell_shiftCell comp_def add.commute add.left_commute)
    have ne: "appendChildH ?r' 0 (a0 + length r) \<noteq> []"
      using Cons.prems(1) appendChildH_length [of ?r' 0 "a0 + length r"]
      by (metis append_is_Nil_conv length_0_conv)
    have "toXmlPropsH (p # props) (length b) (b @ map (shiftCell (length b)) r)
          = toXmlPropsH props (length b)
              (appendChildH (b @ map (shiftCell (length b)) ?r') (length b) ((a0 + length r) + length b))"
      by (simp only: p toXmlPropsH.simps 2 sum.case prod.case)
    also have "\<dots> = toXmlPropsH props (length b)
                       (b @ map (shiftCell (length b)) (appendChildH ?r' 0 (a0 + length r)))"
      using Cons.prems(1) by (subst appendChildH_moved) simp_all
    also have "\<dots> = (case toXmlPropsH props 0 (appendChildH ?r' 0 (a0 + length r)) of
                        Inl e \<Rightarrow> Inl e
                      | Inr r' \<Rightarrow> Inr (b @ map (shiftCell (length b)) r'))"
      by (rule Cons.IH [OF ne prem])
    also have "toXmlPropsH props 0 (appendChildH ?r' 0 (a0 + length r)) = toXmlPropsH (p # props) 0 r"
      by (simp only: p toXmlPropsH.simps 1 sum.case prod.case)
    finally show ?thesis .
  qed
qed

lemma toXmlItemsH_moved:
  assumes "\<And>d h. d \<in> set items \<Longrightarrow>
             toXmlH itemName d h =
               (case toXmlH itemName d [] of
                  Inl e \<Rightarrow> Inl e
                | Inr (a, n0) \<Rightarrow> Inr (a + length h, h @ map (shiftCell (length h)) n0))"
  shows "r \<noteq> [] \<Longrightarrow> toXmlItemsH itemName items (length b) (b @ map (shiftCell (length b)) r)
           = (case toXmlItemsH itemName items 0 r of
                Inl e \<Rightarrow> Inl e
              | Inr r' \<Rightarrow> Inr (b @ map (shiftCell (length b)) r'))"
  using assms
proof (induction items arbitrary: r)
  case Nil
  then show ?case by simp
next
  case (Cons d items)
  have E: "toXmlH itemName d h =
               (case toXmlH itemName d [] of
                  Inl e \<Rightarrow> Inl e
                | Inr (a, n0) \<Rightarrow> Inr (a + length h, h @ map (shiftCell (length h)) n0))" for h
    using Cons.prems(2) [of d h] by simp
  have prem: "toXmlH itemName d' h =
               (case toXmlH itemName d' [] of
                  Inl e \<Rightarrow> Inl e
                | Inr (a, n0) \<Rightarrow> Inr (a + length h, h @ map (shiftCell (length h)) n0))"
    if "d' \<in> set items" for d' h
    using Cons.prems(2) [of d' h] that by simp
  show ?case
  proof (cases "toXmlH itemName d []")
    case (Inl e)
    then show ?thesis using E [of r] E [of "b @ map (shiftCell (length b)) r"] by simp
  next
    case (Inr an)
    obtain a0 n0 where an: "an = (a0, n0)" by (cases an)
    let ?r' = "r @ map (shiftCell (length r)) n0"
    have 1: "toXmlH itemName d r = Inr (a0 + length r, ?r')" using E [of r] Inr an by simp
    have 2: "toXmlH itemName d (b @ map (shiftCell (length b)) r)
             = Inr ((a0 + length r) + length b, b @ map (shiftCell (length b)) ?r')"
      using E [of "b @ map (shiftCell (length b)) r"] Inr an
      by (simp add: shiftCell_shiftCell comp_def add.commute add.left_commute)
    have ne: "appendChildH ?r' 0 (a0 + length r) \<noteq> []"
      using Cons.prems(1) appendChildH_length [of ?r' 0 "a0 + length r"]
      by (metis append_is_Nil_conv length_0_conv)
    have "toXmlItemsH itemName (d # items) (length b) (b @ map (shiftCell (length b)) r)
          = toXmlItemsH itemName items (length b)
              (appendChildH (b @ map (shiftCell (length b)) ?r') (length b) ((a0 + length r) + length b))"
      by (simp only: toXmlItemsH.simps 2 sum.case prod.case)
    also have "\<dots> = toXmlItemsH itemName items (length b)
                       (b @ map (shiftCell (length b)) (appendChildH ?r' 0 (a0 + length r)))"
      using Cons.prems(1) by (subst appendChildH_moved) simp_all
    also have "\<dots> = (case toXmlItemsH itemName items 0 (appendChildH ?r' 0 (a0 + length r)) of
                        Inl e \<Rightarrow> Inl e
                      | Inr r' \<Rightarrow> Inr (b @ map (shiftCell (length b)) r'))"
      by (rule Cons.IH [OF ne prem])
    also have "toXmlItemsH itemName items 0 (appendChildH ?r' 0 (a0 + length r))
               = toXmlItemsH itemName (d # items) 0 r"
      by (simp only: toXmlItemsH.simps 1 sum.case prod.case)
    finally show ?thesis .
  qed
qed

lemma setTextContentH_moved:
  "setTextContentH (h @ [CElement name []]) (length h) s
   = h @ map (shiftCell (length h)) (setTextContentH [CElement name []] 0 s)"
  using appendChildH_moved [of "[CElement name [], CText s]" h 1]
  by (simp add: setTextContentH_def)

lemma toXmlH_moved:
  "toXmlH name d h =
     (case toXmlH name d [] of
        Inl e \<Rightarrow> Inl e
      | Inr (a, n0) \<Rightarrow> Inr (a + length h, h @ map (shiftCell (length h)) n0))"
proof (induction d arbitrary: name h)
  case (DObject ps objectType properties)
  have IH: "toXmlH name d h =
               (case toXmlH name d [] of
                  Inl e \<Rightarrow> Inl e
                | Inr (a, n0) \<Rightarrow> Inr (a + length h, h @ map (shiftCell (length h)) n0))"
    if "(name, d) \<in> set properties" for name d h
    using DObject [of "(name, d)" d name h] that by simp
  from toXmlPropsH_moved [of properties "[CElement name []]" h, OF IH]
  show ?case by (auto simp: createElementH_def split: sum.splits)
next
  case (DArray itemName itemTemplate items)
  from toXmlItemsH_moved [of items itemName "[CElement name []]" h, OF DArray]
  show ?case by (auto simp: createElementH_def split: sum.splits)
next
  case (DValue k v)
  show ?case
    using setTextContentH_moved [of h name]
    by (auto simp: createElementH_def split: sum.splits)
qed

lemma toXmlPropsH_closed:
  assumes "\<And>name d a n0. (name, d) \<in> set props \<Longrightarrow> toXmlH name d [] = Inr (a, n0)
             \<Longrightarrow> closedBlock n0 \<and> a < length n0"
  shows "closedBlock r \<Longrightarrow> toXmlPropsH props i r = Inr r'
           \<Longrightarrow> closedBlock r' \<and> length r \<le> length r'"
  using assms
proof (induction props arbitrary: r)
  case Nil
  then show ?case by simp
next
  case (Cons p props)
  obtain name d where p: "p = (name, d)" by (cases p)
  from Cons.prems(2) obtain c h' where 1: "toXmlH name d r = Inr (c, h')"
    and 2: "toXmlPropsH props i (appendChildH h' i c) = Inr r'"
    by (auto simp: p split: sum.splits)
  from 1 toXmlH_moved [of name d r] obtain a0 n0 where
    0: "toXmlH name d [] = Inr (a0, n0)" and c: "c = a0 + length r"
    and h': "h' = r @ map (shiftCell (length r)) n0"
    by (auto split: sum.splits)
  from Cons.prems(3) [of name d a0 n0] 0 have c0: "closedBlock n0" "a0 < length n0"
    by (simp_all add: p)
  have ch: "closedBlock h'" unfolding h' by (rule closedBlock_append [OF Cons.prems(1) c0(1)])
  have cl: "c < length h'" using c0(2) by (simp add: c h')
  have ca: "closedBlock (appendChildH h' i c)" by (rule closedBlock_appendChildH [OF ch cl])
  have "closedBlock r' \<and> length (appendChildH h' i c) \<le> length r'"
  proof (rule Cons.IH [OF ca 2])
    fix name' d' a' n0'
    assume "(name', d') \<in> set props" "toXmlH name' d' [] = Inr (a', n0')"
    then show "closedBlock n0' \<and> a' < length n0'"
      using Cons.prems(3) [of name' d' a' n0'] by simp
  qed
  then show ?case by (simp add: appendChildH_length h')
qed

lemma toXmlItemsH_closed:
  assumes "\<And>d a n0. d \<in> set items \<Longrightarrow> toXmlH itemName d [] = Inr (a, n0)
             \<Longrightarrow> closedBlock n0 \<and> a < length n0"
  shows "closedBlock r \<Longrightarrow> toXmlItemsH itemName items i r = Inr r'
           \<Longrightarrow> closedBlock r' \<and> length r \<le> length r'"
  using assms
proof (induction items arbitrary: r)
  case Nil
  then show ?case by simp
next
  case (Cons d items)
  from Cons.prems(2) obtain c h' where 1: "toXmlH itemName d r = Inr (c, h')"
    and 2: "toXmlItemsH itemName items i (appendChildH h' i c) = Inr r'"
    by (auto split: sum.splits)
  from 1 toXmlH_moved [of itemName d r] obtain a0 n0 where
    0: "toXmlH itemName d [] = Inr (a0, n0)" and c: "c = a0 + length r"
    and h': "h' = r @ map (shiftCell (length r)) n0"
    by (auto split: sum.splits)
  from Cons.prems(3) [of d a0 n0] 0 have c0: "closedBlock n0" "a0 < length n0"
    by simp_all
  have ch: "closedBlock h'" unfolding h' by (rule closedBlock_append [OF Cons.prems(1) c0(1)])
  have cl: "c < length h'" using c0(2) by (simp add: c h')
  have ca: "closedBlock (appendChildH h' i c)" by (rule closedBlock_appendChildH [OF ch cl])
  have "closedBlock r' \<and> length (appendChildH h' i c) \<le> length r'"
  proof (rule Cons.IH [OF ca 2])
    fix d' a' n0'
    assume "d' \<in> set items" "toXmlH itemName d' [] = Inr (a', n0')"
    then show "closedBlock n0' \<and> a' < length n0'"
      using Cons.prems(3) [of d' a' n0'] by simp
  qed
  then show ?case by (simp add: appendChildH_length h')
qed

lemma toXmlH_closed:
  "toXmlH name d [] = Inr (a, n0) \<Longrightarrow> closedBlock n0 \<and> a < length n0"
proof (induction d arbitrary: name a n0)
  case (DObject ps objectType properties)
  have IH: "closedBlock n0 \<and> a < length n0"
    if "(name, d) \<in> set properties" "toXmlH name d [] = Inr (a, n0)" for name d a n0
    using DObject.IH [of "(name, d)" d name a n0] that by simp
  from DObject.prems have r: "toXmlPropsH properties 0 [CElement name []] = Inr n0" and a: "a = 0"
    by (auto simp: createElementH_def split: sum.splits if_splits)
  have "closedBlock [CElement name []]" by (simp add: closedBlock_def)
  from toXmlPropsH_closed [of properties "[CElement name []]" 0 n0, OF IH this r] a
  show ?case by auto
next
  case (DArray itemName itemTemplate items)
  from DArray.prems have r: "toXmlItemsH itemName items 0 [CElement name []] = Inr n0" and a: "a = 0"
    by (auto simp: createElementH_def split: sum.splits if_splits)
  have "closedBlock [CElement name []]" by (simp add: closedBlock_def)
  from toXmlItemsH_closed [of items itemName "[CElement name []]" 0 n0, OF DArray.IH this r] a
  show ?case by auto
next
  case (DValue k v)
  then show ?case
    by (auto simp: createElementH_def setTextContentH_def appendChildH_def closedBlock_def
             split: sum.splits if_splits)
qed

text \<open>The templates build value nodes from the parsers' results, which are primitives.\<close>

lemma valueParser_primitive: "valueParser k v = Inr r \<Longrightarrow> isPrimitive r"
  by (cases k) (auto split: sum.splits)

lemma primProps_assign: "primProps acc \<Longrightarrow> primNode d \<Longrightarrow> primProps (assign acc name d)"
  by (induction acc name d rule: assign.induct) auto

lemma fromJs_primNode:
  "fromJs t v = Inr d \<Longrightarrow> primNode d"
  "fromJsProps ps v acc = Inr qs \<Longrightarrow> primProps acc \<Longrightarrow> primProps qs"
  "fromJsItems t vs = Inr ds \<Longrightarrow> primItems ds"
proof (induction t v and ps v acc and t vs arbitrary: d and qs and ds
       rule: fromJs_fromJsProps_fromJsItems.induct)
  case (1 ps objectType "value")
  then show ?case by (auto split: sum.splits)
next
  case (2 itemName itemTemplate "value")
  then show ?case by (auto split: sum.splits jsval.splits)
next
  case (3 k "value")
  then show ?case by (auto split: sum.splits dest: valueParser_primitive)
next
  case (4 "value" properties)
  then show ?case by simp
next
  case (5 name t ps "value" properties)
  from 5(3) obtain x d where x: "getProp value name = Inr x" and d: "fromJs t x = Inr d"
    and r: "fromJsProps ps value (assign properties name d) = Inr qs"
    by (auto split: sum.splits)
  from 5(1) [OF x d] have "primNode d" .
  with 5(4) have "primProps (assign properties name d)" by (simp add: primProps_assign)
  from 5(2) [OF x d r this] show ?case .
next
  case (6 t)
  then show ?case by auto
next
  case (7 t x xs)
  then show ?case by (auto split: sum.splits)
qed

lemma fromXml_primNode:
  "fromXml t n = Inr d \<Longrightarrow> primNode d"
  "fromXmlProps ps ns acc = Inr qs \<Longrightarrow> primProps acc \<Longrightarrow> primProps qs"
  "fromXmlItems t ns = Inr ds \<Longrightarrow> primItems ds"
proof (induction t n and ps ns acc and t ns arbitrary: d and qs and ds
       rule: fromXml_fromXmlProps_fromXmlItems.induct)
  case (1 ps objectType "value")
  then show ?case by (auto split: sum.splits)
next
  case (2 itemName itemTemplate "value")
  then show ?case by (auto split: sum.splits)
next
  case (3 k "value")
  then show ?case by (auto split: sum.splits dest: valueParser_primitive)
next
  case (4 ps properties)
  then show ?case by simp
next
  case (5 ps node nodes properties)
  let ?k = "propKey (tagName node)"
  show ?case
  proof (cases "\<not> truthyProp properties ?k \<and> truthyProp ps ?k")
    case True
    with 5(4) obtain t d where t: "map_of ps ?k = Some t" and d: "fromXml t node = Inr d"
      and r: "fromXmlProps ps nodes (assign properties ?k d) = Inr qs"
      by (auto simp: Let_def split: option.splits sum.splits)
    from 5(1) [OF refl True t d] have "primNode d" .
    with 5(5) have "primProps (assign properties ?k d)" by (simp add: primProps_assign)
    from 5(2) [OF refl True t d r this] show ?thesis .
  next
    case False
    with 5(4) have "fromXmlProps ps nodes properties = Inr qs" by (auto simp: Let_def)
    from 5(3) [OF refl False this 5(5)] show ?thesis .
  qed
next
  case (6 t)
  then show ?case by auto
next
  case (7 t element elements)
  then show ?case by (auto split: sum.splits)
qed

section \<open>The claims\<close>

text \<open>
  C7.  Array tag filtering and uniform item tags.  For every array template with item
  name \<open>n\<close>, \<open>fromXml\<close> succeeds and its items are exactly the children whose tag is
  \<open>n\<close>, in document order, each read with the item template (the other children are
  skipped); whenever \<open>toXml\<close> returns, every item is rendered, in order, as a child tagged
  \<open>n\<close>.  On the example, \<^verbatim>\<open>Array("n", Integer())\<close> reads \<open>[3, 5]\<close> from
  \<^verbatim>\<open><c><n>3</n><other>9</other><n>5</n></c>\<close> and renders it under \<^verbatim>\<open>c\<close> as
  \<^verbatim>\<open><c><n>3</n><n>5</n></c>\<close>.
\<close>

theorem array_tag_filtering:
  "(\<exists>ds. fromXml (TArray n t) node = Inr (DArray n t ds)
       \<and> list_all2 (\<lambda>c d. fromXml t c = Inr d)
            (filter (\<lambda>c. tagName c = Some n) (childNodes node)) ds)
   \<and> (toXml name (DArray n t items) = Inr el \<longrightarrow>
        (\<exists>cs. el = Element name cs
           \<and> list_all2 (\<lambda>i c. toXml n i = Inr c \<and> tagName c = Some n) items cs))
   \<and> fromXml (TArray ''n'' (TValue TInteger)) arrayExample = Inr arrayExampleNode
   \<and> toJs arrayExampleNode = JArr [JNum (Dec 3 0), JNum (Dec 5 0)]
   \<and> toXml ''c'' arrayExampleNode
       = Inr (Element ''c'' [Element ''n'' [Text ''3''], Element ''n'' [Text ''5'']])"
proof (intro conjI impI)
  obtain ds where
    ds: "fromXmlItems t (filter (\<lambda>c. tagName c = Some n) (childNodes node)) = Inr ds"
    using fromXml_total(3) by blast
  then show "\<exists>ds. fromXml (TArray n t) node = Inr (DArray n t ds)
       \<and> list_all2 (\<lambda>c d. fromXml t c = Inr d)
            (filter (\<lambda>c. tagName c = Some n) (childNodes node)) ds"
    using fromXmlItems_all2 [OF ds] by simp
next
  assume r: "toXml name (DArray n t items) = Inr el"
  then have i: "toXmlItems n items (Element name []) = Inr el"
    by (auto simp: createElement_Inr split: sum.splits)
  from toXml_shape(3) [OF i refl] obtain cs where el: "el = Element name cs"
    and all: "list_all2 (\<lambda>i c. toXml n i = Inr c) items cs" by auto
  have "list_all2 (\<lambda>i c. toXml n i = Inr c \<and> tagName c = Some n) items cs"
    using all by (rule list_all2_mono) (auto dest: toXml_shape(1))
  with el show "\<exists>cs. el = Element name cs
           \<and> list_all2 (\<lambda>i c. toXml n i = Inr c \<and> tagName c = Some n) items cs"
    by blast
next
  show "fromXml (TArray ''n'' (TValue TInteger)) arrayExample = Inr arrayExampleNode"
    by (rule arrayExample_fromXml)
next
  show "toJs arrayExampleNode = JArr [JNum (Dec 3 0), JNum (Dec 5 0)]"
    by (simp add: arrayExampleNode_def)
next
  show "toXml ''c'' arrayExampleNode
       = Inr (Element ''c'' [Element ''n'' [Text ''3''], Element ''n'' [Text ''5'']])"
    by (rule arrayExample_toXml)
qed

theorem array_tag_filtering_witness:
  "toXml ''c'' arrayExampleNode
     = Inr (Element ''c'' [Element ''n'' [Text ''3''], Element ''n'' [Text ''5'']])
   \<and> (\<exists>cs. Element ''c'' [Element ''n'' [Text ''3''], Element ''n'' [Text ''5'']]
              = Element ''c'' cs
         \<and> list_all2 (\<lambda>i c. toXml ''n'' i = Inr c \<and> tagName c = Some ''n'')
              [DValue TInteger (JNum (Dec 3 0)), DValue TInteger (JNum (Dec 5 0))] cs)"
  using array_tag_filtering [of "''n''" "TValue TInteger" arrayExample "''c''"
      "[DValue TInteger (JNum (Dec 3 0)), DValue TInteger (JNum (Dec 5 0))]"
      "Element ''c'' [Element ''n'' [Text ''3''], Element ''n'' [Text ''5'']]"]
  unfolding arrayExampleNode_def by blast









text \<open>
  C3, at an input where the code departs from it.  The template
  \<^verbatim>\<open>Object({constructor: Number()})\<close> declares a property named \<^verbatim>\<open>constructor\<close>; the tree
  \<^verbatim>\<open><x><constructor>1</constructor><constructor>2</constructor></x>\<close> has two children
  with that tag.  \<open>fromXml\<close> fills the property from neither: the guard
  \<^verbatim>\<open>!properties[name]\<close> finds the \<^verbatim>\<open>constructor\<close> that the fresh \<^verbatim>\<open>{}\<close> inherits, so the
  mapping stays empty.  \<open>fromJs\<close> of the same template keeps the property.  (For a
  declared name that \<^verbatim>\<open>{}\<close> does not inherit, \<open>fromXml_first_match\<close> above shows that the
  first child wins.)
\<close>

theorem fromXml_inherited_name:
  "fromXml (TObject [(''constructor'', TValue TNumber)] ''Object'')
      (Element ''x'' [Element ''constructor'' [Text ''1''], Element ''constructor'' [Text ''2'']])
   = Inr (DObject [(''constructor'', TValue TNumber)] ''Object'' [])
   \<and> fromJs (TObject [(''constructor'', TValue TNumber)] ''Object'')
      (JObj ''Object'' [(''constructor'', JNum (Dec 1 0))])
   = Inr (DObject [(''constructor'', TValue TNumber)] ''Object''
           [(''constructor'', DValue TNumber (JNum (Dec 1 0)))])"
  by code_simp







text \<open>
  C2, as the code has it.  The text round trip.  Let \<open>S\<close> be a template whose property
  and item names are XML names, none of them a name that \<^verbatim>\<open>{}\<close> inherits, and \<open>V\<close> a native
  value whose shape exactly matches \<open>S\<close>, with Integer primitives below \<open>10 ^ 21\<close>.  The
  host's serializer and parser are parameters; what is asked of them is that parsing the
  text of the rendered element gives that element back.  Then
  \<^verbatim>\<open>S.fromJs(V).toXmlString("root")\<close> returns a string, \<^verbatim>\<open>S.fromXmlString\<close> of that string
  returns an intermediate object, and \<open>toJs\<close> of it equals \<open>V\<close> field for field.
\<close>

theorem text_round_trip:
  assumes "matchesWith smallInteger S V" and "tagsOk S"
    and "\<And>d el. fromJs S V = Inr d \<Longrightarrow> toXml ''root'' d = Inr el
           \<Longrightarrow> parseFromString (serialize el) = [el]"
  shows "\<exists>d s d'. fromJs S V = Inr d \<and> toXmlString serialize ''root'' d = Inr s
           \<and> fromXmlString parseFromString S s = Inr d' \<and> equalFields S (toJs d') V"
proof -
  from fromJs_toJs_matching [OF assms(1)] obtain d where
    d: "fromJs S V = Inr d" and eq: "equalFields S (toJs d) V" by blast
  have root: "xmlName ''root''" by (simp add: isNameStartChar_def isNameChar_def)
  from toXml_fromXml_matching [OF assms(1,2) root d] obtain el where
    el: "toXml ''root'' d = Inr el" and rd: "fromXml S el = Inr d" by blast
  have s: "toXmlString serialize ''root'' d = Inr (serialize el)"
    using el root by (simp add: toXmlString_def createElement_def innerHTML_def)
  have "fromXmlString parseFromString S (serialize el) = Inr d"
    using assms(3) [OF d el] rd by (simp add: fromXmlString_def)
  with d s eq show ?thesis by blast
qed

theorem text_round_trip_witness:
  "matchesWith smallInteger exampleTemplate exampleValue \<and> tagsOk exampleTemplate
   \<and> toXmlString serializeXml ''root'' exampleNode
       = Inr ''<root><a>15</a><b>true</b><c><number>3</number><number>5</number></c></root>''
   \<and> (\<exists>d s d'. fromJs exampleTemplate exampleValue = Inr d
         \<and> toXmlString serializeXml ''root'' d = Inr s
         \<and> fromXmlString exampleParser exampleTemplate s = Inr d'
         \<and> equalFields exampleTemplate (toJs d') exampleValue)"
proof -
  have m: "matchesWith smallInteger exampleTemplate exampleValue" by code_simp
  have t: "tagsOk exampleTemplate" by code_simp
  have h: "exampleParser (serializeXml el) = [el]"
    if "fromJs exampleTemplate exampleValue = Inr d" "toXml ''root'' d = Inr el" for d el
    using that by (simp add: example_fromJs example_toXml exampleParser_def)
  have s: "toXmlString serializeXml ''root'' exampleNode
       = Inr ''<root><a>15</a><b>true</b><c><number>3</number><number>5</number></c></root>''"
    using example_toXml example_text
    by (simp add: toXmlString_def createElement_def innerHTML_def isNameStartChar_def isNameChar_def)
  have "\<exists>d s d'. fromJs exampleTemplate exampleValue = Inr d
         \<and> toXmlString serializeXml ''root'' d = Inr s
         \<and> fromXmlString exampleParser exampleTemplate s = Inr d'
         \<and> equalFields exampleTemplate (toJs d') exampleValue"
    by (rule text_round_trip [OF m t]) (rule h)
  with m t s show ?thesis by blast
qed

text \<open>
  The claim as stated fails for a template with a property name that is no XML name:
  \<^verbatim>\<open>createElement\<close> rejects the name, so \<^verbatim>\<open>toXmlString\<close> throws and there is no text to
  parse.
\<close>

theorem invalid_tag_name_throws:
  "matchesWith isInteger spaceTemplate spaceValue
   \<and> fromJs spaceTemplate spaceValue
       = Inr (DObject [(''first name'', TValue TString)] ''Object''
                [(''first name'', DValue TString (JStr ''Ada''))])
   \<and> toXmlString serializeXml ''root''
        (DObject [(''first name'', TValue TString)] ''Object''
           [(''first name'', DValue TString (JStr ''Ada''))])
       = Inl InvalidCharacterError"
  by code_simp

text \<open>
  C9.  Idempotent, pure rendering.  Let \<open>d\<close> be an intermediate object that a template
  built, with \<open>fromJs\<close> or with \<open>fromXml\<close>.  Its value nodes hold primitives.  Calling
  \<open>toJs\<close> twice, the second time in the store that the first call left, appends the same
  block of cells twice, each time moved to the free addresses: the store that a call
  starts from is a prefix of the store it leaves, so no cell that existed is changed
  (not the first result either, during the second call); the block refers to its own
  cells only, so the two results share no cell; and the second result is the first one
  moved, cell by cell.  The same holds for \<open>toXml\<close> called twice with the same name when
  it returns, and when the first call throws, the second throws the same exception.
\<close>

theorem rendering_twice:
  assumes "fromJs t v = Inr d \<or> fromXml t n = Inr d"
  shows "primNode d
       \<and> (toJsH d h0 = (v1, h1) \<and> toJsH d h1 = (v2, h2) \<longrightarrow>
            (\<exists>V R. closedBlock R \<and> list_all (\<lambda>a. a < length R) (valRefs V)
               \<and> h1 = h0 @ map (shiftCell (length h0)) R \<and> v1 = shiftVal (length h0) V
               \<and> h2 = h1 @ map (shiftCell (length h1)) R \<and> v2 = shiftVal (length h1) V))
       \<and> (toXmlH name d h0 = Inr (a1, h1) \<and> toXmlH name d h1 = r2 \<longrightarrow>
            (\<exists>a R. closedBlock R \<and> a < length R
               \<and> h1 = h0 @ map (shiftCell (length h0)) R \<and> a1 = a + length h0
               \<and> r2 = Inr (a + length h1, h1 @ map (shiftCell (length h1)) R)))
       \<and> (toXmlH name d h0 = Inl e \<longrightarrow> toXmlH name d h1 = Inl e)"
proof (intro conjI impI)
  show "primNode d" using assms fromJs_primNode(1) fromXml_primNode(1) by blast
next
  assume a: "toJsH d h0 = (v1, h1) \<and> toJsH d h1 = (v2, h2)"
  define V where "V = fst (toJsH d [])"
  define R where "R = snd (toJsH d [])"
  have c: "closedBlock R" "list_all (\<lambda>a. a < length R) (valRefs V)"
    using toJsH_closed [of d] by (simp_all add: V_def R_def list_all_iff)
  have "toJsH d h = (shiftVal (length h) V, h @ map (shiftCell (length h)) R)" for h
    unfolding V_def R_def by (rule toJsH_moved)
  from this [of h0] this [of h1] a c
  show "\<exists>V R. closedBlock R \<and> list_all (\<lambda>a. a < length R) (valRefs V)
               \<and> h1 = h0 @ map (shiftCell (length h0)) R \<and> v1 = shiftVal (length h0) V
               \<and> h2 = h1 @ map (shiftCell (length h1)) R \<and> v2 = shiftVal (length h1) V"
    by (intro exI [of _ V] exI [of _ R]) simp
next
  assume a: "toXmlH name d h0 = Inr (a1, h1) \<and> toXmlH name d h1 = r2"
  with toXmlH_moved [of name d h0] obtain a R where
    0: "toXmlH name d [] = Inr (a, R)" and 1: "a1 = a + length h0"
    "h1 = h0 @ map (shiftCell (length h0)) R"
    by (auto split: sum.splits)
  from toXmlH_closed [OF 0] have c: "closedBlock R" "a < length R" by auto
  have "r2 = Inr (a + length h1, h1 @ map (shiftCell (length h1)) R)"
    using a toXmlH_moved [of name d h1] 0 by simp
  with c 1 show "\<exists>a R. closedBlock R \<and> a < length R
               \<and> h1 = h0 @ map (shiftCell (length h0)) R \<and> a1 = a + length h0
               \<and> r2 = Inr (a + length h1, h1 @ map (shiftCell (length h1)) R)"
    by blast
next
  assume "toXmlH name d h0 = Inl e"
  with toXmlH_moved [of name d h0] have "toXmlH name d [] = Inl e"
    by (auto split: sum.splits)
  with toXmlH_moved [of name d h1] show "toXmlH name d h1 = Inl e" by simp
qed

theorem rendering_twice_witness:
  "fromJs exampleTemplate exampleValue = Inr exampleNode
   \<and> primNode exampleNode
   \<and> toJsH exampleNode [] = (HRef 0, exampleBlock)
   \<and> toJsH exampleNode exampleBlock
       = (HRef 2, exampleBlock @ map (shiftCell 2) exampleBlock)
   \<and> (\<exists>V R. closedBlock R \<and> list_all (\<lambda>a. a < length R) (valRefs V)
         \<and> exampleBlock = [] @ map (shiftCell (length ([] :: cell list))) R
         \<and> HRef 0 = shiftVal (length ([] :: cell list)) V
         \<and> exampleBlock @ map (shiftCell 2) exampleBlock
             = exampleBlock @ map (shiftCell (length exampleBlock)) R
         \<and> HRef 2 = shiftVal (length exampleBlock) V)
   \<and> toXmlH ''root'' exampleNode [] = Inr (0, exampleElements)
   \<and> toXmlH ''root'' exampleNode exampleElements
       = Inr (10, exampleElements @ map (shiftCell 10) exampleElements)
   \<and> toXmlH ''first name'' exampleNode [] = Inl InvalidCharacterError
   \<and> toXmlH ''first name'' exampleNode exampleElements = Inl InvalidCharacterError"
proof -
  have f: "fromJs exampleTemplate exampleValue = Inr exampleNode" by (rule example_fromJs)
  have 1: "toJsH exampleNode [] = (HRef 0, exampleBlock)" by code_simp
  have 2: "toJsH exampleNode exampleBlock
       = (HRef 2, exampleBlock @ map (shiftCell 2) exampleBlock)"
    by code_simp
  have names: "xmlName ''root''" "xmlName ''a''" "xmlName ''b''" "xmlName ''c''"
    "xmlName ''number''" "\<not> xmlName ''first name''"
    by code_simp+
  have texts: "toString (JNum (Dec 15 0)) = Inr ''15''" "toString (JBool True) = Inr ''true''"
    "toString (JNum (Dec 3 0)) = Inr ''3''" "toString (JNum (Dec 5 0)) = Inr ''5''"
    by code_simp+
  have 3: "toXmlH ''root'' exampleNode [] = Inr (0, exampleElements)"
    by (simp add: exampleNode_def exampleElements_def createElementH_def names texts
          setTextContentH_def appendChildH_def nth_append del: xmlName.simps)
  have 4: "toXmlH ''first name'' exampleNode [] = Inl InvalidCharacterError"
    by (simp add: exampleNode_def createElementH_def names del: xmlName.simps)
  have l: "length exampleElements = 10" by (simp add: exampleElements_def)
  have g: "fromJs exampleTemplate exampleValue = Inr exampleNode
      \<or> fromXml exampleTemplate (Text []) = Inr exampleNode"
    using f by simp
  from rendering_twice [where t = exampleTemplate and v = exampleValue and d = exampleNode
      and n = "Text []" and ?h0.0 = "[]" and ?v1.0 = "HRef 0" and ?h1.0 = exampleBlock
      and ?v2.0 = "HRef 2" and ?h2.0 = "exampleBlock @ map (shiftCell 2) exampleBlock", OF g]
    1 2
  have a: "primNode exampleNode"
    and b: "\<exists>V R. closedBlock R \<and> list_all (\<lambda>a. a < length R) (valRefs V)
         \<and> exampleBlock = [] @ map (shiftCell (length ([] :: cell list))) R
         \<and> HRef 0 = shiftVal (length ([] :: cell list)) V
         \<and> exampleBlock @ map (shiftCell 2) exampleBlock
             = exampleBlock @ map (shiftCell (length exampleBlock)) R
         \<and> HRef 2 = shiftVal (length exampleBlock) V"
    by blast+
  from rendering_twice [where t = exampleTemplate and v = exampleValue and d = exampleNode
      and n = "Text []" and ?h0.0 = "[]" and ?h1.0 = exampleElements and name = "''root''"
      and ?a1.0 = 0 and ?r2.0 = "toXmlH ''root'' exampleNode exampleElements", OF g] 3
  have c: "toXmlH ''root'' exampleNode exampleElements
       = Inr (10, exampleElements @ map (shiftCell 10) exampleElements)"
    by (auto simp: l map_idI shiftCell_0)
  from rendering_twice [where t = exampleTemplate and v = exampleValue and d = exampleNode
      and n = "Text []" and ?h0.0 = "[]" and ?h1.0 = exampleElements
      and name = "''first name''" and e = InvalidCharacterError, OF g] 4
  have d: "toXmlH ''first name'' exampleNode exampleElements = Inl InvalidCharacterError"
    by blast
  from f a 1 2 b 3 c 4 d show ?thesis by blast
qed

end
